theory Spec2Isabelle
  imports Complex_Main
begin

section \<open>Values exchanged with the collaborators\<close>

text \<open>
  The repository is two JavaScript files: \<^verbatim>\<open>src/api/repository.js\<close> (the socket handlers
  \<^verbatim>\<open>PARSE_REPOSITORY_URL\<close> and \<^verbatim>\<open>REPOSITORY_SYNC\<close>) and the Sequelize model
  \<^verbatim>\<open>Repository\<close>. Everything they call (the GitHub client, \<^verbatim>\<open>getIssues\<close>, the
  classifier, Sequelize, \<^verbatim>\<open>async.auto\<close>, \<^verbatim>\<open>parse-github-url\<close>) lives elsewhere; the
  behaviour of those collaborators is a parameter of the model (the records \<open>github_api\<close>
  and \<open>env\<close>), or a definition marked as modelled.

  A JavaScript error object is known here only through its \<^verbatim>\<open>message\<close> property, which
  may be missing.
\<close>

datatype js_error = JsError (err_message: "string option")

text \<open>The result of \<^verbatim>\<open>parseGitHubUrl\<close>; the empty string stands for a missing
  (falsy) property.\<close>

record github_url =
  url_owner :: string
  url_name :: string
  url_repo :: string

text \<open>What \<^verbatim>\<open>repos.get\<close> answers: only the properties \<^verbatim>\<open>transformFields\<close> reads.\<close>

record github_repo =
  gh_id :: int
  gh_owner_login :: string
  gh_name :: string
  gh_description :: string

record repository =
  repo_id :: int
  owner :: string
  name :: string
  description :: string
  token :: "string option"

record github_issue =
  gh_number :: int
  gh_title :: string
  gh_labels :: "string list"

record issue =
  number :: int
  title :: string
  labels :: "string list"
  repository_id :: "int option"

text \<open>The classifier's answer, with the five properties the model logs.\<close>

record summary =
  score :: rat
  wrong :: nat
  total :: nat
  percentage :: rat
  newly_labeled_issues :: nat

text \<open>\<^verbatim>\<open>Repository.transformFields\<close>: pick id, owner, name, description; owner becomes
  \<^verbatim>\<open>owner.login\<close>.\<close>

definition transformFields :: "github_repo \<Rightarrow> repository" where
  "transformFields r =
     \<lparr>repo_id = gh_id r, owner = gh_owner_login r, name = gh_name r,
      description = gh_description r, token = None\<rparr>"

section \<open>The persistence layer\<close>

record database =
  repositories :: "repository list"
  issues_table :: "issue list"

definition same_key :: "repository \<Rightarrow> repository \<Rightarrow> bool" where
  "same_key r x = (owner x = owner r \<and> name x = name r)"

text \<open>Modelled from the spec: \<^verbatim>\<open>Repository.upsert\<close> (Sequelize, not in the repository's
  files): insert-or-update keyed by the unique \<open>(owner, name)\<close> pair that the model's
  \<^verbatim>\<open>indexes\<close> option declares.\<close>

definition Repository_upsert :: "repository \<Rightarrow> database \<Rightarrow> database" where
  "Repository_upsert r d =
     d\<lparr>repositories :=
         (if list_ex (same_key r) (repositories d)
          then map (\<lambda>x. if same_key r x then r else x) (repositories d)
          else repositories d @ [r])\<rparr>"

text \<open>Modelled from the spec: \<^verbatim>\<open>Issue.destroy({where: {repository_id}})\<close> (Sequelize and
  the Issue model, not in the repository's files): delete all issues of that repository.\<close>

definition Issue_destroy :: "int \<Rightarrow> database \<Rightarrow> database" where
  "Issue_destroy rid d =
     d\<lparr>issues_table := filter (\<lambda>i. repository_id i \<noteq> Some rid) (issues_table d)\<rparr>"

text \<open>Modelled from the spec: \<^verbatim>\<open>Issue.bulkCreate\<close> (Sequelize and the Issue model, not in
  the repository's files): insert the given records and return the inserted records.\<close>

definition Issue_bulkCreate :: "issue list \<Rightarrow> database \<Rightarrow> database \<times> issue list" where
  "Issue_bulkCreate is d = (d\<lparr>issues_table := issues_table d @ is\<rparr>, is)"

section \<open>The run: tasks, events, state\<close>

text \<open>The keys of the object handed to \<^verbatim>\<open>async.auto\<close>, and the members of
  \<^verbatim>\<open>REPOSITORY_SYNC_TASKS\<close> that tag progress events.\<close>

datatype key = K_repo | K_issues | K_records | K_webhooks | K_train

datatype sync_task = REPO | ISSUES | DATABASE | WEBHOOK | TRAIN

record progress_event =
  task :: sync_task
  percent :: rat
  message :: "string option"

datatype val = Undefined | RepoVal repository | IssuesVal "issue list" | SummaryVal summary

datatype call =
    Repos_get string string
  | GetIssues string string
  | Upsert repository
  | Destroy int
  | BulkCreate "issue list"
  | CreateHook string string
  | Train string string "issue list" "string list"

datatype event =
    Join string
  | Leave string
  | Progress progress_event
  | Invoke key
  | Call call
  | Task_ok key
  | Task_failed key js_error

text \<open>Where a task body is suspended: the collaborator call whose answer it awaits.\<close>

datatype pc =
    NotStarted
  | Awaiting_get
  | Awaiting_getIssues nat
  | Awaiting_upsert
  | Awaiting_destroy
  | Awaiting_bulkCreate
  | Awaiting_createHook
  | Awaiting_train
  | Succeeded
  | Failed

datatype cb_error = MISSING_GITHUB | Message string

record reply =
  reply_error :: "cb_error option"
  reply_results :: "(key \<Rightarrow> val option) option"

record state =
  phases :: "key \<Rightarrow> pc"
  results :: "key \<Rightarrow> val option"
  hasError :: bool
  delivered :: "reply option"
  db :: database
  trace :: "event list"
  uncaught :: bool

record github_api =
  repos_get :: "string \<Rightarrow> string \<Rightarrow> js_error + github_repo"
  createHook :: "string \<Rightarrow> string \<Rightarrow> js_error option"

text \<open>
  The collaborators of one request. \<open>getIssues\<close> gives the percents it reports through
  its progress callback, in order, and then how its promise settles. Each persistence call
  may be rejected (\<open>upsert_error\<close>, \<open>destroy_error\<close>, \<open>bulkCreate_error\<close>).
\<close>

record env =
  parseGitHubUrl :: "string \<Rightarrow> github_url option"
  socket_github :: "github_api option"
  socket_token :: "string option"
  getIssues :: "string \<Rightarrow> string \<Rightarrow> rat list \<times> (js_error + github_issue list)"
  Issue_transformFields :: "github_issue \<Rightarrow> issue"
  upsert_error :: "js_error option"
  destroy_error :: "js_error option"
  bulkCreate_error :: "js_error option"
  classifier_train :: "string \<Rightarrow> string \<Rightarrow> issue list \<Rightarrow> string list \<Rightarrow> js_error + summary"

definition emit :: "event \<Rightarrow> state \<Rightarrow> state" where
  "emit e st = st\<lparr>trace := trace st @ [e]\<rparr>"

definition progress :: "sync_task \<Rightarrow> rat \<Rightarrow> string option \<Rightarrow> state \<Rightarrow> state" where
  "progress t p m st = emit (Progress \<lparr>task = t, percent = p, message = m\<rparr>) st"

definition set_pc :: "key \<Rightarrow> pc \<Rightarrow> state \<Rightarrow> state" where
  "set_pc k p st = st\<lparr>phases := (phases st)(k := p)\<rparr>"

text \<open>Reading a property of \<^verbatim>\<open>undefined\<close> throws a TypeError nobody catches.\<close>

definition throw :: "state \<Rightarrow> state" where
  "throw st = st\<lparr>uncaught := True\<rparr>"

text \<open>\<^verbatim>\<open>err && err.message\<close>\<close>

definition err_and_message :: "js_error option \<Rightarrow> string option" where
  "err_and_message err = (case err of None \<Rightarrow> None | Some e \<Rightarrow> err_message e)"

definition repoRoom :: "github_url \<Rightarrow> string" where
  "repoRoom u = ''repo:'' @ url_repo u"

section \<open>The task bodies\<close>

text \<open>
  A body runs until it either suspends on a collaborator call (answer \<open>None\<close>) or calls
  its callback (\<open>Some (Inl err)\<close> for \<^verbatim>\<open>cb(err)\<close>, \<open>Some (Inr v)\<close> for
  \<^verbatim>\<open>cb(null, v)\<close>, with \<open>v = Undefined\<close> for \<^verbatim>\<open>cb()\<close>). \<open>start\<close> is the body up to
  its first suspension, \<open>resume\<close> the continuation run when the awaited answer arrives.
\<close>

type_synonym outcome = "(js_error + val) option"

definition repo_start :: "github_url \<Rightarrow> state \<Rightarrow> state \<times> outcome" where
  "repo_start u st =
     (set_pc K_repo Awaiting_get
        (emit (Call (Repos_get (url_owner u) (url_name u)))
           (progress REPO 0 None st)), None)"

definition repo_resume :: "env \<Rightarrow> github_api \<Rightarrow> github_url \<Rightarrow> state \<Rightarrow> state \<times> outcome" where
  "repo_resume e gh u st =
     (case repos_get gh (url_owner u) (url_name u) of
        Inl err \<Rightarrow> (st, Some (Inl err))
      | Inr r \<Rightarrow>
          (progress REPO 1 None st,
           Some (Inr (RepoVal ((transformFields r)\<lparr>token := socket_token e\<rparr>)))))"

definition issues_start :: "github_url \<Rightarrow> state \<Rightarrow> state \<times> outcome" where
  "issues_start u st =
     (set_pc K_issues (Awaiting_getIssues 0)
        (emit (Call (GetIssues (url_owner u) (url_name u))) st), None)"

definition issues_resume :: "env \<Rightarrow> github_url \<Rightarrow> nat \<Rightarrow> state \<Rightarrow> state \<times> outcome" where
  "issues_resume e u n st =
     (case getIssues e (url_owner u) (url_name u) of
        (ps, settled) \<Rightarrow>
          if n < length ps
          then (set_pc K_issues (Awaiting_getIssues (Suc n)) (progress ISSUES (ps ! n) None st), None)
          else (case settled of
                  Inr found \<Rightarrow>
                    (progress ISSUES 1 None st,
                     Some (Inr (IssuesVal (map (Issue_transformFields e) found))))
                | Inl err \<Rightarrow> (st, Some (Inl err))))"

definition records_start :: "state \<Rightarrow> state \<times> outcome" where
  "records_start st =
     (let st1 = progress DATABASE 0 None st in
      case results st K_repo of
        Some (RepoVal repo) \<Rightarrow> (set_pc K_records Awaiting_upsert (emit (Call (Upsert repo)) st1), None)
      | _ \<Rightarrow> (throw st1, None))"

definition records_upserted :: "env \<Rightarrow> state \<Rightarrow> state \<times> outcome" where
  "records_upserted e st =
     (case results st K_repo of
        Some (RepoVal repo) \<Rightarrow>
          (case upsert_error e of
             Some err \<Rightarrow> (st, Some (Inl err))
           | None \<Rightarrow>
               (set_pc K_records Awaiting_destroy
                  (emit (Call (Destroy (repo_id repo)))
                     (progress DATABASE (1/2) None (st\<lparr>db := Repository_upsert repo (db st)\<rparr>))), None))
      | _ \<Rightarrow> (throw st, None))"

definition attach :: "int \<Rightarrow> issue \<Rightarrow> issue" where
  "attach repoId i = i\<lparr>repository_id := Some repoId\<rparr>"

definition records_destroyed :: "env \<Rightarrow> state \<Rightarrow> state \<times> outcome" where
  "records_destroyed e st =
     (case (results st K_repo, results st K_issues) of
        (Some (RepoVal repo), Some (IssuesVal issues)) \<Rightarrow>
          (case destroy_error e of
             Some err \<Rightarrow> (st, Some (Inl err))
           | None \<Rightarrow>
               (let repoId = repo_id repo;
                    issues' = map (attach repoId) issues;
                    st1 = st\<lparr>db := Issue_destroy repoId (db st),
                             results := (results st)(K_issues \<mapsto> IssuesVal issues')\<rparr>
                in (set_pc K_records Awaiting_bulkCreate
                      (emit (Call (BulkCreate issues')) (progress DATABASE (3/5) None st1)), None)))
      | _ \<Rightarrow> (throw st, None))"

definition records_created :: "env \<Rightarrow> state \<Rightarrow> state \<times> outcome" where
  "records_created e st =
     (case results st K_issues of
        Some (IssuesVal issues) \<Rightarrow>
          (case bulkCreate_error e of
             Some err \<Rightarrow> (st, Some (Inl err))
           | None \<Rightarrow>
               (case Issue_bulkCreate issues (db st) of
                  (d, created) \<Rightarrow>
                    (progress DATABASE 1 None (st\<lparr>db := d\<rparr>), Some (Inr (IssuesVal created)))))
      | _ \<Rightarrow> (throw st, None))"

definition webhooks_start :: "state \<Rightarrow> state \<times> outcome" where
  "webhooks_start st =
     (let st1 = progress WEBHOOK 0 None st in
      case results st K_repo of
        Some (RepoVal repo) \<Rightarrow>
          (set_pc K_webhooks Awaiting_createHook
             (emit (Call (CreateHook (owner repo) (name repo))) st1), None)
      | _ \<Rightarrow> (throw st1, None))"

definition webhooks_resume :: "github_api \<Rightarrow> state \<Rightarrow> state \<times> outcome" where
  "webhooks_resume gh st =
     (case results st K_repo of
        Some (RepoVal repo) \<Rightarrow>
          (progress WEBHOOK 1 (err_and_message (createHook gh (owner repo) (name repo))) st,
           Some (Inr Undefined))
      | _ \<Rightarrow> (throw st, None))"

definition train_start :: "state \<Rightarrow> state \<times> outcome" where
  "train_start st =
     (let st1 = progress TRAIN 0 None st in
      case results st K_issues of
        Some (IssuesVal issues) \<Rightarrow>
          if length issues \<le> 1
          then (progress TRAIN 1 None st1, Some (Inr Undefined))
          else (case results st K_repo of
                  Some (RepoVal repo) \<Rightarrow>
                    (set_pc K_train Awaiting_train
                       (emit (Call (Train (owner repo) (name repo) issues [])) st1), None)
                | _ \<Rightarrow> (throw st1, None))
      | _ \<Rightarrow> (throw st1, None))"

definition train_resume :: "env \<Rightarrow> state \<Rightarrow> state \<times> outcome" where
  "train_resume e st =
     (case (results st K_repo, results st K_issues) of
        (Some (RepoVal repo), Some (IssuesVal issues)) \<Rightarrow>
          (case classifier_train e (owner repo) (name repo) issues [] of
             Inr resp \<Rightarrow> (progress TRAIN 1 None st, Some (Inr Undefined))
           | Inl err \<Rightarrow> (st, Some (Inl err)))
      | _ \<Rightarrow> (throw st, None))"

fun start :: "github_url \<Rightarrow> key \<Rightarrow> state \<Rightarrow> state \<times> outcome" where
  "start u K_repo st = repo_start u st"
| "start u K_issues st = issues_start u st"
| "start u K_records st = records_start st"
| "start u K_webhooks st = webhooks_start st"
| "start u K_train st = train_start st"

text \<open>A key awaits only the calls its own body makes.\<close>

definition awaiting :: "key \<Rightarrow> pc \<Rightarrow> bool" where
  "awaiting k p =
     (case k of
        K_repo \<Rightarrow> p = Awaiting_get
      | K_issues \<Rightarrow> (case p of Awaiting_getIssues n \<Rightarrow> True | _ \<Rightarrow> False)
      | K_records \<Rightarrow> p = Awaiting_upsert \<or> p = Awaiting_destroy \<or> p = Awaiting_bulkCreate
      | K_webhooks \<Rightarrow> p = Awaiting_createHook
      | K_train \<Rightarrow> p = Awaiting_train)"

definition resume :: "env \<Rightarrow> github_api \<Rightarrow> github_url \<Rightarrow> key \<Rightarrow> state \<Rightarrow> state \<times> outcome" where
  "resume e gh u k st =
     (case k of
        K_repo \<Rightarrow> if phases st k = Awaiting_get then repo_resume e gh u st else (st, None)
      | K_issues \<Rightarrow>
          (case phases st k of Awaiting_getIssues n \<Rightarrow> issues_resume e u n st | _ \<Rightarrow> (st, None))
      | K_records \<Rightarrow>
          if phases st k = Awaiting_upsert then records_upserted e st
          else if phases st k = Awaiting_destroy then records_destroyed e st
          else if phases st k = Awaiting_bulkCreate then records_created e st
          else (st, None)
      | K_webhooks \<Rightarrow>
          if phases st k = Awaiting_createHook then webhooks_resume gh st else (st, None)
      | K_train \<Rightarrow> if phases st k = Awaiting_train then train_resume e st else (st, None))"

section \<open>The executor\<close>

text \<open>
  Modelled from the spec: \<^verbatim>\<open>async.auto\<close> (the npm package \<^verbatim>\<open>async\<close>, not in the
  repository's files), the spec's Task Graph Executor. A task is launched once all its
  dependencies have called back without an error; a successful callback stores the result
  under the task's key and launches what has become ready; the first callback with an error
  calls the final callback at once, with the results so far, and stops every later launch,
  while bodies already suspended still run to their end; when nothing runs and nothing is
  ready the final callback is called without an error. The final callback is called once.
\<close>

fun deps :: "key \<Rightarrow> key list" where
  "deps K_repo = []"
| "deps K_issues = []"
| "deps K_records = [K_repo, K_issues]"
| "deps K_webhooks = [K_repo]"
| "deps K_train = [K_repo, K_records]"

definition all_keys :: "key list" where
  "all_keys = [K_repo, K_issues, K_records, K_webhooks, K_train]"

definition in_flight :: "state \<Rightarrow> key list" where
  "in_flight st = (if uncaught st then [] else filter (\<lambda>k. awaiting k (phases st k)) all_keys)"

definition ready :: "state \<Rightarrow> key \<Rightarrow> bool" where
  "ready st k =
     (\<not> hasError st \<and> \<not> uncaught st \<and> phases st k = NotStarted \<and>
      list_all (\<lambda>d. phases st d = Succeeded) (deps k))"

text \<open>The function handed to \<^verbatim>\<open>async.auto\<close> as its last argument: leave the room and
  answer the client with \<^verbatim>\<open>cb(err && err.message, results)\<close>.\<close>

definition final_callback :: "github_url \<Rightarrow> js_error option \<Rightarrow> (key \<Rightarrow> val option) \<Rightarrow> state \<Rightarrow> state" where
  "final_callback u err res st =
     (if delivered st = None
      then (emit (Leave (repoRoom u)) st)
             \<lparr>delivered := Some \<lparr>reply_error = map_option Message (err_and_message err),
                                 reply_results = Some res\<rparr>\<rparr>
      else st)"

definition task_failed :: "github_url \<Rightarrow> key \<Rightarrow> js_error \<Rightarrow> state \<Rightarrow> state" where
  "task_failed u k err st =
     final_callback u (Some err) ((results st)(k \<mapsto> Undefined))
       ((set_pc k Failed (emit (Task_failed k err) st))\<lparr>hasError := True\<rparr>)"

definition task_succeeded :: "key \<Rightarrow> val \<Rightarrow> state \<Rightarrow> state" where
  "task_succeeded k v st =
     (set_pc k Succeeded (emit (Task_ok k) st))\<lparr>results := (results st)(k \<mapsto> v)\<rparr>"

definition settle :: "github_url \<Rightarrow> key \<Rightarrow> state \<times> outcome \<Rightarrow> state" where
  "settle u k r =
     (case r of
        (st, None) \<Rightarrow> st
      | (st, Some (Inl err)) \<Rightarrow> task_failed u k err st
      | (st, Some (Inr v)) \<Rightarrow> task_succeeded k v st)"

definition run_task :: "github_url \<Rightarrow> key \<Rightarrow> state \<Rightarrow> state" where
  "run_task u k st = (if ready st k then settle u k (start u k (emit (Invoke k) st)) else st)"

definition process_queue :: "github_url \<Rightarrow> state \<Rightarrow> state" where
  "process_queue u st =
     (let st' = fold (run_task u) all_keys st
      in if in_flight st' = [] \<and> \<not> uncaught st' then final_callback u None (results st') st'
         else st')"

text \<open>One answer arrives: the body of \<open>k\<close> continues; if it calls back, the executor
  does its bookkeeping.\<close>

definition step :: "env \<Rightarrow> github_api \<Rightarrow> github_url \<Rightarrow> key \<Rightarrow> state \<Rightarrow> state" where
  "step e gh u k st =
     (case resume e gh u k st of
        (st', Some (Inr v)) \<Rightarrow> process_queue u (task_succeeded k v st')
      | r \<Rightarrow> settle u k r)"

text \<open>How far the run still is from its end; it bounds the number of answers to come.\<close>

definition weight :: "nat \<Rightarrow> pc \<Rightarrow> nat" where
  "weight n p =
     (case p of
        NotStarted \<Rightarrow> n + 5
      | Awaiting_getIssues i \<Rightarrow> Suc (n - i)
      | Awaiting_upsert \<Rightarrow> 3
      | Awaiting_destroy \<Rightarrow> 2
      | Succeeded \<Rightarrow> 0
      | Failed \<Rightarrow> 0
      | _ \<Rightarrow> 1)"

definition reports :: "env \<Rightarrow> github_url \<Rightarrow> nat" where
  "reports e u = length (fst (getIssues e (url_owner u) (url_name u)))"

definition potential :: "env \<Rightarrow> github_url \<Rightarrow> state \<Rightarrow> nat" where
  "potential e u st =
     (if uncaught st then 0
      else Suc (weight (reports e u) (phases st K_repo) + weight (reports e u) (phases st K_issues) +
                weight (reports e u) (phases st K_records) + weight (reports e u) (phases st K_webhooks) +
                weight (reports e u) (phases st K_train)))"

subsection \<open>Every run ends\<close>

text \<open>Each answer that arrives lowers \<open>potential\<close>: the body that continues moves to a
  later suspension point or calls back, and launching a task lowers its weight too.\<close>

lemma phases_emit [simp]: "phases (emit e st) = phases st" by (simp add: emit_def)
lemma uncaught_emit [simp]: "uncaught (emit e st) = uncaught st" by (simp add: emit_def)
lemma phases_progress [simp]: "phases (progress t p m st) = phases st" by (simp add: progress_def)
lemma uncaught_progress [simp]: "uncaught (progress t p m st) = uncaught st" by (simp add: progress_def)
lemma phases_set_pc [simp]: "phases (set_pc k p st) = (phases st)(k := p)" by (simp add: set_pc_def)
lemma uncaught_set_pc [simp]: "uncaught (set_pc k p st) = uncaught st" by (simp add: set_pc_def)
lemma phases_throw [simp]: "phases (throw st) = phases st" by (simp add: throw_def)
lemma uncaught_throw [simp]: "uncaught (throw st) = True" by (simp add: throw_def)
lemma phases_final [simp]: "phases (final_callback u err res st) = phases st" by (simp add: final_callback_def)
lemma uncaught_final [simp]: "uncaught (final_callback u err res st) = uncaught st" by (simp add: final_callback_def)
lemma phases_failed [simp]: "phases (task_failed u k err st) = (phases st)(k := Failed)" by (simp add: task_failed_def)
lemma uncaught_failed [simp]: "uncaught (task_failed u k err st) = uncaught st" by (simp add: task_failed_def)
lemma phases_succeeded [simp]: "phases (task_succeeded k v st) = (phases st)(k := Succeeded)" by (simp add: task_succeeded_def)
lemma uncaught_succeeded [simp]: "uncaught (task_succeeded k v st) = uncaught st" by (simp add: task_succeeded_def)

definition moved :: "nat \<Rightarrow> key \<Rightarrow> state \<Rightarrow> state \<times> outcome \<Rightarrow> bool" where
  "moved n k st r =
     (case r of (st', out) \<Rightarrow>
        uncaught st' \<or>
        (\<not> uncaught st \<and> (\<forall>k'. k' \<noteq> k \<longrightarrow> phases st' k' = phases st k') \<and>
           (case out of
              None \<Rightarrow> weight n (phases st' k) < weight n (phases st k)
            | Some x \<Rightarrow> phases st' k = phases st k \<and> 0 < weight n (phases st k))))"

lemma start_moved:
  assumes "\<not> uncaught st" "phases st k = NotStarted"
  shows "moved n k st (start u k (emit (Invoke k) st))"
proof (cases k)
  case K_repo then show ?thesis
    using assms by (simp add: moved_def repo_start_def weight_def)
next
  case K_issues then show ?thesis
    using assms by (simp add: moved_def issues_start_def weight_def)
next
  case K_records then show ?thesis
    using assms by (simp add: moved_def records_start_def weight_def Let_def split: option.splits val.splits)
next
  case K_webhooks then show ?thesis
    using assms by (simp add: moved_def webhooks_start_def weight_def Let_def split: option.splits val.splits)
next
  case K_train then show ?thesis
    using assms by (simp add: moved_def train_start_def weight_def Let_def split: option.splits val.splits)
qed

lemma resume_moved:
  assumes "k \<in> set (in_flight st)"
  shows "moved (reports e u) k st (resume e gh u k st)"
proof -
  from assms have nu: "\<not> uncaught st" and aw: "awaiting k (phases st k)"
    by (auto simp: in_flight_def split: if_splits)
  show ?thesis
  proof (cases k)
    case K_repo then show ?thesis
      using nu aw by (simp add: moved_def resume_def awaiting_def repo_resume_def weight_def split: sum.splits)
  next
    case K_issues then show ?thesis
      using nu aw by (auto simp: moved_def resume_def awaiting_def issues_resume_def weight_def reports_def
          split: sum.splits pc.splits prod.splits)
  next
    case K_records then show ?thesis
      using nu aw by (auto simp: moved_def resume_def awaiting_def records_upserted_def records_destroyed_def
          records_created_def Issue_bulkCreate_def weight_def Let_def split: option.splits val.splits)
  next
    case K_webhooks then show ?thesis
      using nu aw by (simp add: moved_def resume_def awaiting_def webhooks_resume_def weight_def split: option.splits val.splits)
  next
    case K_train then show ?thesis
      using nu aw by (simp add: moved_def resume_def awaiting_def train_resume_def weight_def split: option.splits val.splits sum.splits)
  qed
qed

lemma potential_frame:
  assumes "\<not> uncaught st" "\<not> uncaught st'" "\<forall>k'. k' \<noteq> k \<longrightarrow> phases st' k' = phases st k'"
  shows "potential e u st' + weight (reports e u) (phases st k) =
         potential e u st + weight (reports e u) (phases st' k)"
  using assms by (cases k) (simp_all add: potential_def)

lemma potential_uncaught: "uncaught st' \<Longrightarrow> potential e u st' \<le> potential e u st"
  by (simp add: potential_def)

lemma potential_uncaught_less: "uncaught st' \<Longrightarrow> \<not> uncaught st \<Longrightarrow> potential e u st' < potential e u st"
  by (simp add: potential_def)

lemma settle_uncaught: "uncaught (settle u k (st', out)) = uncaught st'"
  by (simp add: settle_def split: option.splits sum.splits)

lemma potential_settle:
  assumes "moved (reports e u) k st (st', out)" "\<not> uncaught st"
  shows "potential e u (settle u k (st', out)) < potential e u st"
proof (cases "uncaught st'")
  case True
  then show ?thesis using assms(2) by (simp add: potential_uncaught_less settle_uncaught)
next
  case False
  let ?s = "settle u k (st', out)"
  have nu: "\<not> uncaught ?s" using False by (simp add: settle_uncaught)
  have fr: "\<forall>k'. k' \<noteq> k \<longrightarrow> phases ?s k' = phases st k'"
    using assms False by (auto simp: moved_def settle_def split: option.splits sum.splits)
  have w: "weight (reports e u) (phases ?s k) < weight (reports e u) (phases st k)"
    using assms False by (auto simp: moved_def settle_def weight_def split: option.splits sum.splits)
  from potential_frame[OF assms(2) nu fr, of e u] w show ?thesis by linarith
qed


lemma potential_run_task: "potential e u (run_task u k st) \<le> potential e u st"
proof (cases "ready st k")
  case False then show ?thesis by (simp add: run_task_def)
next
  case True
  then have nu: "\<not> uncaught st" and ns: "phases st k = NotStarted" by (simp_all add: ready_def)
  obtain st' out where r: "start u k (emit (Invoke k) st) = (st', out)" by (cases "start u k (emit (Invoke k) st)")
  from start_moved[OF nu ns, of "reports e u" u] r have "moved (reports e u) k st (st', out)" by simp
  from potential_settle[OF this nu] show ?thesis using True r by (simp add: run_task_def)
qed

lemma potential_fold: "potential e u (fold (run_task u) ks st) \<le> potential e u st"
proof (induction ks arbitrary: st)
  case Nil show ?case by simp
next
  case (Cons k ks)
  have "potential e u (fold (run_task u) ks (run_task u k st)) \<le> potential e u (run_task u k st)"
    by (rule Cons.IH)
  also have "\<dots> \<le> potential e u st" by (rule potential_run_task)
  finally show ?case by simp
qed

lemma potential_final: "potential e u (final_callback u' err res st) = potential e u st"
  by (simp add: potential_def)

lemma potential_process_queue: "potential e u (process_queue u st) \<le> potential e u st"
  by (simp add: process_queue_def Let_def potential_fold potential_final)

lemma potential_step:
  assumes "k \<in> set (in_flight st)"
  shows "potential e u (step e gh u k st) < potential e u st"
proof -
  from assms have nu: "\<not> uncaught st" by (auto simp: in_flight_def split: if_splits)
  obtain st' out where r: "resume e gh u k st = (st', out)" by (cases "resume e gh u k st")
  from resume_moved[OF assms, of e u gh] r have m: "moved (reports e u) k st (st', out)" by simp
  have less: "potential e u (settle u k (st', out)) < potential e u st"
    by (rule potential_settle[OF m nu])
  show ?thesis
  proof (cases out)
    case None then show ?thesis using less r by (simp add: step_def)
  next
    case (Some x)
    show ?thesis
    proof (cases x)
      case (Inl err) then show ?thesis using less r Some by (simp add: step_def)
    next
      case (Inr v)
      have "potential e u (process_queue u (task_succeeded k v st')) \<le> potential e u (task_succeeded k v st')"
        by (rule potential_process_queue)
      also have "\<dots> < potential e u st" using less Some Inr by (simp add: settle_def)
      finally show ?thesis using r Some Inr by (simp add: step_def)
    qed
  qed
qed

text \<open>
  The run: as long as some body is suspended, one of the awaited answers arrives. Which
  one is the schedule's choice (\<open>sched\<close>; a key that awaits nothing is passed over, and
  once the schedule is used up the first suspended key answers), so every interleaving of
  the collaborators' answers is the run of some schedule. The model takes every call to be
  answered eventually.
\<close>

function run :: "env \<Rightarrow> github_api \<Rightarrow> github_url \<Rightarrow> key list \<Rightarrow> state \<Rightarrow> state" where
  "run e gh u sched st =
     (case in_flight st of
        [] \<Rightarrow> st
      | k0 # ks0 \<Rightarrow>
          (case sched of
             [] \<Rightarrow> run e gh u [] (step e gh u k0 st)
           | k # ks \<Rightarrow>
               if k \<in> set (in_flight st) then run e gh u ks (step e gh u k st)
               else run e gh u ks st))"
  by pat_completeness auto
termination
proof (relation "measures [\<lambda>(e, gh, u, sched, st). potential e u st, \<lambda>(e, gh, u, sched, st). length sched]", goal_cases)
  case 1 show ?case by simp
next
  case (2 e gh u sched st k0 ks0)
  then have "k0 \<in> set (in_flight st)" by simp
  then show ?case by (simp add: potential_step)
next
  case (3 e gh u sched st k0 ks0 k ks)
  then show ?case by (simp add: potential_step)
next
  case (4 e gh u sched st k0 ks0 k ks)
  then show ?case by simp
qed

declare run.simps [simp del]


section \<open>The socket handlers\<close>

definition initial :: "database \<Rightarrow> state" where
  "initial d =
     \<lparr>phases = (\<lambda>k. NotStarted), results = (\<lambda>k. None), hasError = False, delivered = None,
      db = d, trace = [], uncaught = False\<rparr>"

text \<open>\<^verbatim>\<open>cb(error)\<close> with a single argument.\<close>

definition reply_only :: "cb_error \<Rightarrow> state \<Rightarrow> state" where
  "reply_only err st = st\<lparr>delivered := Some \<lparr>reply_error = Some err, reply_results = None\<rparr>\<rparr>"

definition invalid_url :: cb_error where
  "invalid_url = Message ''Invalid repository URL. Please try again.''"


definition REPOSITORY_SYNC :: "env \<Rightarrow> key list \<Rightarrow> string \<Rightarrow> database \<Rightarrow> state" where
  "REPOSITORY_SYNC e sched repository_url d =
     (case socket_github e of
        None \<Rightarrow> reply_only MISSING_GITHUB (initial d)
      | Some gh \<Rightarrow>
          (case parseGitHubUrl e repository_url of
             Some u \<Rightarrow>
               if url_name u \<noteq> []
               then run e gh u sched (process_queue u (emit (Join (repoRoom u)) (initial d)))
               else reply_only invalid_url (initial d)
           | None \<Rightarrow> reply_only invalid_url (initial d)))"

section \<open>The Repository model's training methods\<close>

datatype console =
    Log_train_repository
  | Log_found_issues nat
  | Log_finished string string nat
  | Log_summary summary
  | Console_error js_error

record models =
  Repository_findById :: "int \<Rightarrow> js_error + repository option"
  Issue_findAll :: "int \<Rightarrow> js_error + issue list"
  train :: "string \<Rightarrow> string \<Rightarrow> issue list \<Rightarrow> string list \<Rightarrow> js_error + summary"

record effects =
  trainer_calls :: "(string \<times> string \<times> issue list \<times> string list) list"
  console_lines :: "console list"

text \<open>\<^verbatim>\<open>instanceMethods.train\<close>: the promise chain is started and not returned, so the
  method's value is \<^verbatim>\<open>undefined\<close>; its \<^verbatim>\<open>catch\<close> prints the error.\<close>

definition instance_train :: "models \<Rightarrow> repository \<Rightarrow> val \<times> effects" where
  "instance_train m this =
     (Undefined,
      case Issue_findAll m (repo_id this) of
        Inl error \<Rightarrow> \<lparr>trainer_calls = [], console_lines = [Log_train_repository, Console_error error]\<rparr>
      | Inr issues \<Rightarrow>
          (case train m (owner this) (name this) issues [] of
             Inl error \<Rightarrow>
               \<lparr>trainer_calls = [(owner this, name this, issues, [])],
                console_lines = [Log_train_repository, Log_found_issues (length issues), Console_error error]\<rparr>
           | Inr resp \<Rightarrow>
               \<lparr>trainer_calls = [(owner this, name this, issues, [])],
                console_lines = [Log_train_repository, Log_found_issues (length issues),
                                 Log_finished (owner this) (name this) (length issues), Log_summary resp]\<rparr>))"

definition TypeError :: js_error where
  "TypeError = JsError (Some ''Cannot read property 'train' of null'')"

text \<open>\<^verbatim>\<open>classMethods.train\<close>: what the returned promise settles with (\<open>Inl\<close>: rejected),
  and what the call brings about.\<close>

definition class_train :: "models \<Rightarrow> int \<Rightarrow> (js_error + val) \<times> effects" where
  "class_train m repoId =
     (case Repository_findById m repoId of
        Inl err \<Rightarrow> (Inl err, \<lparr>trainer_calls = [], console_lines = []\<rparr>)
      | Inr None \<Rightarrow> (Inl TypeError, \<lparr>trainer_calls = [], console_lines = []\<rparr>)
      | Inr (Some repo) \<Rightarrow> (case instance_train m repo of (v, eff) \<Rightarrow> (Inr v, eff)))"

section \<open>A parser for GitHub URLs\<close>

fun split_on :: "char \<Rightarrow> string \<Rightarrow> string list" where
  "split_on c [] = [[]]"
| "split_on c (x # xs) =
     (if x = c then [] # split_on c xs
      else (case split_on c xs of [] \<Rightarrow> [[x]] | y # ys \<Rightarrow> (x # y) # ys))"

text \<open>Modelled from the spec: \<^verbatim>\<open>parseGitHubUrl\<close> (the npm package \<^verbatim>\<open>parse-github-url\<close>,
  not in the repository's files), as far as the spec describes it: pure parsing of a
  repository URL into owner and name, or nothing. After an optional scheme and host, the
  first two segments of the path are the owner and the name.\<close>

definition parse_github_url :: "string \<Rightarrow> github_url option" where
  "parse_github_url s =
     (let path = (if take 8 s = ''https://'' then dropWhile (\<lambda>c. c \<noteq> CHR ''/'') (drop 8 s)
                  else if take 7 s = ''http://'' then dropWhile (\<lambda>c. c \<noteq> CHR ''/'') (drop 7 s)
                  else s)
      in case filter (\<lambda>x. x \<noteq> []) (split_on CHR ''/'' path) of
           [] \<Rightarrow> None
         | [ow] \<Rightarrow> Some \<lparr>url_owner = ow, url_name = [], url_repo = []\<rparr>
         | ow # nm # rest \<Rightarrow> Some \<lparr>url_owner = ow, url_name = nm, url_repo = ow @ ''/'' @ nm\<rparr>)"

section \<open>Sample collaborators\<close>

text \<open>Concrete collaborators on which the model is evaluated: the repository
  \<^verbatim>\<open>acme/widgets\<close>, a fetcher that reports the percents \<open>ps\<close> and finds the issues numbered
  \<open>ns\<close>, a webhook registrar that answers \<open>hook\<close>, a store and a classifier that succeed.\<close>

definition acme :: github_repo where
  "acme = \<lparr>gh_id = 42, gh_owner_login = ''acme'', gh_name = ''widgets'', gh_description = ''Widgets''\<rparr>"

definition raw_issue :: "int \<Rightarrow> github_issue" where
  "raw_issue n = \<lparr>gh_number = n, gh_title = ''bug'', gh_labels = [''bug'']\<rparr>"

definition to_issue :: "github_issue \<Rightarrow> issue" where
  "to_issue g = \<lparr>number = gh_number g, title = gh_title g, labels = gh_labels g, repository_id = None\<rparr>"

definition demo_summary :: summary where
  "demo_summary = \<lparr>score = 9/10, wrong = 1, total = 10, percentage = 90, newly_labeled_issues = 2\<rparr>"

definition always_acme :: "string \<Rightarrow> string \<Rightarrow> js_error + github_repo" where
  "always_acme user repo = Inr acme"

definition hook_answers :: "js_error option \<Rightarrow> string \<Rightarrow> string \<Rightarrow> js_error option" where
  "hook_answers hook user repo = hook"

definition demo_api :: "js_error option \<Rightarrow> github_api" where
  "demo_api hook = \<lparr>repos_get = always_acme, createHook = hook_answers hook\<rparr>"

definition fetcher :: "rat list \<Rightarrow> int list \<Rightarrow> string \<Rightarrow> string \<Rightarrow> rat list \<times> (js_error + github_issue list)" where
  "fetcher ps ns user repo = (ps, Inr (map raw_issue ns))"

definition trainer_ok :: "string \<Rightarrow> string \<Rightarrow> issue list \<Rightarrow> string list \<Rightarrow> js_error + summary" where
  "trainer_ok ow nm is ignoreLabels = Inr demo_summary"

definition demo_env :: "js_error option \<Rightarrow> rat list \<Rightarrow> int list \<Rightarrow> env" where
  "demo_env hook ps ns =
     \<lparr>parseGitHubUrl = parse_github_url,
      socket_github = Some (demo_api hook),
      socket_token = Some ''t0ken'',
      getIssues = fetcher ps ns,
      Issue_transformFields = to_issue,
      upsert_error = None, destroy_error = None, bulkCreate_error = None,
      classifier_train = trainer_ok\<rparr>"

definition empty_db :: database where
  "empty_db = \<lparr>repositories = [], issues_table = []\<rparr>"

text \<open>A caller without a GitHub session.\<close>

definition anonymous_env :: env where
  "anonymous_env = (demo_env None [] [])\<lparr>socket_github := None\<rparr>"

text \<open>A store that holds \<^verbatim>\<open>acme/widgets\<close> under the id 42 with two issues, and a
  classifier that answers \<open>answer\<close>.\<close>

definition stored_acme :: repository where
  "stored_acme = (transformFields acme)\<lparr>token := Some ''t0ken''\<rparr>"

definition stored_issues :: "issue list" where
  "stored_issues = map (attach 42 \<circ> to_issue \<circ> raw_issue) [1, 2]"

definition training_failed :: js_error where
  "training_failed = JsError (Some ''training failed'')"

definition find_acme :: "int \<Rightarrow> js_error + repository option" where
  "find_acme repoId = Inr (if repoId = 42 then Some stored_acme else None)"

definition find_issues :: "int \<Rightarrow> js_error + issue list" where
  "find_issues repoId = Inr (if repoId = 42 then stored_issues else [])"

definition trainer_answers :: "js_error + summary \<Rightarrow> string \<Rightarrow> string \<Rightarrow> issue list \<Rightarrow> string list \<Rightarrow> js_error + summary" where
  "trainer_answers answer ow nm is ignoreLabels = answer"

definition demo_models :: "js_error + summary \<Rightarrow> models" where
  "demo_models answer =
     \<lparr>Repository_findById = find_acme, Issue_findAll = find_issues, train = trainer_answers answer\<rparr>"

section \<open>What a run has done so far\<close>

text \<open>
  The rest of the development describes every state a run can reach. What the two fetches
  deliver is fixed by the collaborators (\<open>fetched_repo\<close>, \<open>fetched_issues\<close>), and with
  it the stored results and the database at every suspension point (\<open>results_now\<close>,
  \<open>db_now\<close>). \<open>sane\<close> collects these facts; \<open>trans\<close> lists, in closed form, each
  move of the run: a task is launched, an answer arrives, or the final callback is called.
\<close>

definition fetched_repo :: "env \<Rightarrow> github_api \<Rightarrow> github_url \<Rightarrow> repository option" where
  "fetched_repo e gh u =
     (case repos_get gh (url_owner u) (url_name u) of
        Inl err \<Rightarrow> None
      | Inr r \<Rightarrow> Some ((transformFields r)\<lparr>token := socket_token e\<rparr>))"

definition fetched_issues :: "env \<Rightarrow> github_url \<Rightarrow> issue list option" where
  "fetched_issues e u =
     (case snd (getIssues e (url_owner u) (url_name u)) of
        Inl err \<Rightarrow> None
      | Inr found \<Rightarrow> Some (map (Issue_transformFields e) found))"

definition attached_issues :: "env \<Rightarrow> github_api \<Rightarrow> github_url \<Rightarrow> issue list" where
  "attached_issues e gh u = map (attach (repo_id (the (fetched_repo e gh u)))) (the (fetched_issues e u))"

definition is_attached :: "env \<Rightarrow> pc \<Rightarrow> bool" where
  "is_attached e p =
     (p = Awaiting_bulkCreate \<or> p = Succeeded \<or>
      (p = Failed \<and> upsert_error e = None \<and> destroy_error e = None))"

definition results_now :: "env \<Rightarrow> github_api \<Rightarrow> github_url \<Rightarrow> (key \<Rightarrow> pc) \<Rightarrow> key \<Rightarrow> val option" where
  "results_now e gh u f k =
     (if f k \<noteq> Succeeded then None
      else (case k of
              K_repo \<Rightarrow> Some (RepoVal (the (fetched_repo e gh u)))
            | K_issues \<Rightarrow>
                Some (IssuesVal (if is_attached e (f K_records) then attached_issues e gh u
                                 else the (fetched_issues e u)))
            | K_records \<Rightarrow> Some (IssuesVal (attached_issues e gh u))
            | K_webhooks \<Rightarrow> Some Undefined
            | K_train \<Rightarrow> Some Undefined))"

definition db_now :: "env \<Rightarrow> github_api \<Rightarrow> github_url \<Rightarrow> database \<Rightarrow> pc \<Rightarrow> database" where
  "db_now e gh u d p =
     (let d1 = Repository_upsert (the (fetched_repo e gh u)) d;
          d2 = Issue_destroy (repo_id (the (fetched_repo e gh u))) d1;
          d3 = fst (Issue_bulkCreate (attached_issues e gh u) d2)
      in if p = Awaiting_destroy then d1
         else if p = Awaiting_bulkCreate then d2
         else if p = Succeeded then d3
         else if p = Failed then (if upsert_error e \<noteq> None then d else if destroy_error e \<noteq> None then d1 else d2)
         else d)"

definition pc_ok :: "key \<Rightarrow> pc \<Rightarrow> bool" where
  "pc_ok k p = (p = NotStarted \<or> awaiting k p \<or> p = Succeeded \<or> p = Failed)"

definition trainer_answer :: "env \<Rightarrow> github_api \<Rightarrow> github_url \<Rightarrow> js_error + summary" where
  "trainer_answer e gh u =
     classifier_train e (owner (the (fetched_repo e gh u))) (name (the (fetched_repo e gh u)))
       (attached_issues e gh u) []"

definition deps_done :: "(key \<Rightarrow> pc) \<Rightarrow> key \<Rightarrow> bool" where
  "deps_done f k = (f k \<noteq> NotStarted \<longrightarrow> list_all (\<lambda>d. f d = Succeeded) (deps k))"

definition agrees :: "env \<Rightarrow> github_api \<Rightarrow> github_url \<Rightarrow> key \<Rightarrow> pc \<Rightarrow> bool" where
  "agrees e gh u k p =
     (case k of
        K_repo \<Rightarrow>
          (p = Succeeded \<longrightarrow> fetched_repo e gh u \<noteq> None) \<and>
          (p = Failed \<longrightarrow> fetched_repo e gh u = None)
      | K_issues \<Rightarrow>
          (\<forall>n. p = Awaiting_getIssues n \<longrightarrow> n \<le> reports e u) \<and>
          (p = Succeeded \<longrightarrow> fetched_issues e u \<noteq> None) \<and>
          (p = Failed \<longrightarrow> fetched_issues e u = None)
      | K_records \<Rightarrow>
          (p = Awaiting_destroy \<longrightarrow> upsert_error e = None) \<and>
          (p = Awaiting_bulkCreate \<longrightarrow> upsert_error e = None \<and> destroy_error e = None) \<and>
          (p = Succeeded \<longrightarrow> upsert_error e = None \<and> destroy_error e = None \<and> bulkCreate_error e = None) \<and>
          (p = Failed \<longrightarrow> \<not> (upsert_error e = None \<and> destroy_error e = None \<and> bulkCreate_error e = None))
      | K_webhooks \<Rightarrow> p \<noteq> Failed
      | K_train \<Rightarrow>
          (p = Awaiting_train \<longrightarrow> 1 < length (attached_issues e gh u)) \<and>
          (p = Failed \<longrightarrow> 1 < length (attached_issues e gh u) \<and> (\<exists>err. trainer_answer e gh u = Inl err)) \<and>
          (p = Succeeded \<longrightarrow> length (attached_issues e gh u) \<le> 1 \<or> (\<exists>s. trainer_answer e gh u = Inr s)))"

definition ok :: "env \<Rightarrow> github_api \<Rightarrow> github_url \<Rightarrow> (key \<Rightarrow> pc) \<Rightarrow> key \<Rightarrow> bool" where
  "ok e gh u f k = (pc_ok k (f k) \<and> deps_done f k \<and> agrees e gh u k (f k))"

definition sane :: "env \<Rightarrow> github_api \<Rightarrow> github_url \<Rightarrow> database \<Rightarrow> state \<Rightarrow> bool" where
  "sane e gh u d st =
     (\<not> uncaught st \<and> (\<forall>k. ok e gh u (phases st) k) \<and>
      results st = results_now e gh u (phases st) \<and>
      db st = db_now e gh u d (phases st K_records))"

abbreviation (input) P :: "sync_task \<Rightarrow> rat \<Rightarrow> string option \<Rightarrow> event" where
  "P t p m \<equiv> Progress \<lparr>task = t, percent = p, message = m\<rparr>"

inductive trans :: "env \<Rightarrow> github_api \<Rightarrow> github_url \<Rightarrow> state \<Rightarrow> state \<Rightarrow> bool"
  for e :: env and gh :: github_api and u :: github_url
where
  start_repo:
    "ready st K_repo \<Longrightarrow>
     trans e gh u st
       (st\<lparr>phases := (phases st)(K_repo := Awaiting_get),
           trace := trace st @ [Invoke K_repo, P REPO 0 None, Call (Repos_get (url_owner u) (url_name u))]\<rparr>)"
| start_issues:
    "ready st K_issues \<Longrightarrow>
     trans e gh u st
       (st\<lparr>phases := (phases st)(K_issues := Awaiting_getIssues 0),
           trace := trace st @ [Invoke K_issues, Call (GetIssues (url_owner u) (url_name u))]\<rparr>)"
| start_records:
    "ready st K_records \<Longrightarrow> fetched_repo e gh u = Some R \<Longrightarrow>
     trans e gh u st
       (st\<lparr>phases := (phases st)(K_records := Awaiting_upsert),
           trace := trace st @ [Invoke K_records, P DATABASE 0 None, Call (Upsert R)]\<rparr>)"
| start_webhooks:
    "ready st K_webhooks \<Longrightarrow> fetched_repo e gh u = Some R \<Longrightarrow>
     trans e gh u st
       (st\<lparr>phases := (phases st)(K_webhooks := Awaiting_createHook),
           trace := trace st @ [Invoke K_webhooks, P WEBHOOK 0 None, Call (CreateHook (owner R) (name R))]\<rparr>)"
| start_train_skip:
    "ready st K_train \<Longrightarrow> length (attached_issues e gh u) \<le> 1 \<Longrightarrow>
     trans e gh u st
       (st\<lparr>phases := (phases st)(K_train := Succeeded),
           results := (results st)(K_train \<mapsto> Undefined),
           trace := trace st @ [Invoke K_train, P TRAIN 0 None, P TRAIN 1 None, Task_ok K_train]\<rparr>)"
| start_train_call:
    "ready st K_train \<Longrightarrow> 1 < length (attached_issues e gh u) \<Longrightarrow> fetched_repo e gh u = Some R \<Longrightarrow>
     trans e gh u st
       (st\<lparr>phases := (phases st)(K_train := Awaiting_train),
           trace := trace st @ [Invoke K_train, P TRAIN 0 None,
                                Call (Train (owner R) (name R) (attached_issues e gh u) [])]\<rparr>)"
| repo_ok:
    "phases st K_repo = Awaiting_get \<Longrightarrow> fetched_repo e gh u = Some R \<Longrightarrow>
     trans e gh u st
       (st\<lparr>phases := (phases st)(K_repo := Succeeded),
           results := (results st)(K_repo \<mapsto> RepoVal R),
           trace := trace st @ [P REPO 1 None, Task_ok K_repo]\<rparr>)"
| repo_err:
    "phases st K_repo = Awaiting_get \<Longrightarrow> repos_get gh (url_owner u) (url_name u) = Inl err \<Longrightarrow>
     trans e gh u st (task_failed u K_repo err st)"
| issues_report:
    "phases st K_issues = Awaiting_getIssues n \<Longrightarrow> n < reports e u \<Longrightarrow>
     trans e gh u st
       (st\<lparr>phases := (phases st)(K_issues := Awaiting_getIssues (Suc n)),
           trace := trace st @ [P ISSUES (fst (getIssues e (url_owner u) (url_name u)) ! n) None]\<rparr>)"
| issues_ok:
    "phases st K_issues = Awaiting_getIssues (reports e u) \<Longrightarrow> fetched_issues e u = Some I \<Longrightarrow>
     trans e gh u st
       (st\<lparr>phases := (phases st)(K_issues := Succeeded),
           results := (results st)(K_issues \<mapsto> IssuesVal I),
           trace := trace st @ [P ISSUES 1 None, Task_ok K_issues]\<rparr>)"
| issues_err:
    "phases st K_issues = Awaiting_getIssues (reports e u) \<Longrightarrow>
     snd (getIssues e (url_owner u) (url_name u)) = Inl err \<Longrightarrow>
     trans e gh u st (task_failed u K_issues err st)"
| upserted_ok:
    "phases st K_records = Awaiting_upsert \<Longrightarrow> fetched_repo e gh u = Some R \<Longrightarrow> upsert_error e = None \<Longrightarrow>
     trans e gh u st
       (st\<lparr>phases := (phases st)(K_records := Awaiting_destroy),
           db := Repository_upsert R (db st),
           trace := trace st @ [P DATABASE (1/2) None, Call (Destroy (repo_id R))]\<rparr>)"
| upserted_err:
    "phases st K_records = Awaiting_upsert \<Longrightarrow> upsert_error e = Some err \<Longrightarrow>
     trans e gh u st (task_failed u K_records err st)"
| destroyed_ok:
    "phases st K_records = Awaiting_destroy \<Longrightarrow> fetched_repo e gh u = Some R \<Longrightarrow>
     upsert_error e = None \<Longrightarrow> destroy_error e = None \<Longrightarrow>
     trans e gh u st
       (st\<lparr>phases := (phases st)(K_records := Awaiting_bulkCreate),
           results := (results st)(K_issues \<mapsto> IssuesVal (attached_issues e gh u)),
           db := Issue_destroy (repo_id R) (db st),
           trace := trace st @ [P DATABASE (3/5) None, Call (BulkCreate (attached_issues e gh u))]\<rparr>)"
| destroyed_err:
    "phases st K_records = Awaiting_destroy \<Longrightarrow> upsert_error e = None \<Longrightarrow> destroy_error e = Some err \<Longrightarrow>
     trans e gh u st (task_failed u K_records err st)"
| created_ok:
    "phases st K_records = Awaiting_bulkCreate \<Longrightarrow>
     upsert_error e = None \<Longrightarrow> destroy_error e = None \<Longrightarrow> bulkCreate_error e = None \<Longrightarrow>
     trans e gh u st
       (st\<lparr>phases := (phases st)(K_records := Succeeded),
           results := (results st)(K_records \<mapsto> IssuesVal (attached_issues e gh u)),
           db := fst (Issue_bulkCreate (attached_issues e gh u) (db st)),
           trace := trace st @ [P DATABASE 1 None, Task_ok K_records]\<rparr>)"
| created_err:
    "phases st K_records = Awaiting_bulkCreate \<Longrightarrow>
     upsert_error e = None \<Longrightarrow> destroy_error e = None \<Longrightarrow> bulkCreate_error e = Some err \<Longrightarrow>
     trans e gh u st (task_failed u K_records err st)"
| webhooks_done:
    "phases st K_webhooks = Awaiting_createHook \<Longrightarrow> fetched_repo e gh u = Some R \<Longrightarrow>
     trans e gh u st
       (st\<lparr>phases := (phases st)(K_webhooks := Succeeded),
           results := (results st)(K_webhooks \<mapsto> Undefined),
           trace := trace st @ [P WEBHOOK 1 (err_and_message (createHook gh (owner R) (name R))),
                                Task_ok K_webhooks]\<rparr>)"
| train_ok:
    "phases st K_train = Awaiting_train \<Longrightarrow> trainer_answer e gh u = Inr s \<Longrightarrow>
     trans e gh u st
       (st\<lparr>phases := (phases st)(K_train := Succeeded),
           results := (results st)(K_train \<mapsto> Undefined),
           trace := trace st @ [P TRAIN 1 None, Task_ok K_train]\<rparr>)"
| train_err:
    "phases st K_train = Awaiting_train \<Longrightarrow> trainer_answer e gh u = Inl err \<Longrightarrow>
     trans e gh u st (task_failed u K_train err st)"
| finish:
    "in_flight st = [] \<Longrightarrow> \<not> uncaught st \<Longrightarrow> \<forall>k. \<not> ready st k \<Longrightarrow>
     trans e gh u st (final_callback u None (results st) st)"

definition started :: "github_url \<Rightarrow> database \<Rightarrow> state" where
  "started u d = emit (Join (repoRoom u)) (initial d)"

definition preserved :: "env \<Rightarrow> github_api \<Rightarrow> github_url \<Rightarrow> database \<Rightarrow> (state \<Rightarrow> bool) \<Rightarrow> bool" where
  "preserved e gh u d I = (\<forall>st st'. sane e gh u d st \<longrightarrow> I st \<longrightarrow> trans e gh u st st' \<longrightarrow> I st')"

definition launched :: "key \<Rightarrow> state \<Rightarrow> state \<Rightarrow> bool" where
  "launched j s s' =
     (hasError s' = hasError s \<and> (\<forall>k. k \<noteq> j \<longrightarrow> phases s' k = phases s k) \<and>
      (uncaught s' \<or> phases s' j \<noteq> NotStarted) \<and>
      (phases s' j = Succeeded \<longrightarrow> j = K_train))"

definition task_key :: "sync_task \<Rightarrow> key" where
  "task_key t = (case t of REPO \<Rightarrow> K_repo | ISSUES \<Rightarrow> K_issues | DATABASE \<Rightarrow> K_records
                 | WEBHOOK \<Rightarrow> K_webhooks | TRAIN \<Rightarrow> K_train)"

definition caller :: "call \<Rightarrow> key" where
  "caller c =
     (case c of
        Repos_get user repo \<Rightarrow> K_repo
      | GetIssues user repo \<Rightarrow> K_issues
      | Upsert r \<Rightarrow> K_records
      | Destroy i \<Rightarrow> K_records
      | BulkCreate is \<Rightarrow> K_records
      | CreateHook user repo \<Rightarrow> K_webhooks
      | Train ow nm is ign \<Rightarrow> K_train)"

definition event_key :: "event \<Rightarrow> key option" where
  "event_key ev =
     (case ev of
        Join room \<Rightarrow> None
      | Leave room \<Rightarrow> None
      | Progress p \<Rightarrow> Some (task_key (task p))
      | Invoke k \<Rightarrow> Some k
      | Call c \<Rightarrow> Some (caller c)
      | Task_ok k \<Rightarrow> Some k
      | Task_failed k err \<Rightarrow> Some k)"

definition events_of :: "key \<Rightarrow> event list \<Rightarrow> event list" where
  "events_of k tr = filter (\<lambda>ev. event_key ev = Some k) tr"

definition repo_script :: "github_api \<Rightarrow> github_url \<Rightarrow> pc \<Rightarrow> event list" where
  "repo_script gh u p =
     (let s0 = [Invoke K_repo, P REPO 0 None, Call (Repos_get (url_owner u) (url_name u))]
      in case p of
           Awaiting_get \<Rightarrow> s0
         | Succeeded \<Rightarrow> s0 @ [P REPO 1 None, Task_ok K_repo]
         | Failed \<Rightarrow> s0 @ [Task_failed K_repo (projl (repos_get gh (url_owner u) (url_name u)))]
         | _ \<Rightarrow> [])"

definition issues_script :: "env \<Rightarrow> github_url \<Rightarrow> pc \<Rightarrow> event list" where
  "issues_script e u p =
     (let ps = fst (getIssues e (url_owner u) (url_name u));
          s0 = [Invoke K_issues, Call (GetIssues (url_owner u) (url_name u))]
      in case p of
           Awaiting_getIssues n \<Rightarrow> s0 @ map (\<lambda>q. P ISSUES q None) (take n ps)
         | Succeeded \<Rightarrow> s0 @ map (\<lambda>q. P ISSUES q None) ps @ [P ISSUES 1 None, Task_ok K_issues]
         | Failed \<Rightarrow>
             s0 @ map (\<lambda>q. P ISSUES q None) ps @
             [Task_failed K_issues (projl (snd (getIssues e (url_owner u) (url_name u))))]
         | _ \<Rightarrow> [])"

definition records_script :: "env \<Rightarrow> github_api \<Rightarrow> github_url \<Rightarrow> pc \<Rightarrow> event list" where
  "records_script e gh u p =
     (let R = the (fetched_repo e gh u);
          s0 = [Invoke K_records, P DATABASE 0 None, Call (Upsert R)];
          s1 = s0 @ [P DATABASE (1/2) None, Call (Destroy (repo_id R))];
          s2 = s1 @ [P DATABASE (3/5) None, Call (BulkCreate (attached_issues e gh u))]
      in case p of
           Awaiting_upsert \<Rightarrow> s0
         | Awaiting_destroy \<Rightarrow> s1
         | Awaiting_bulkCreate \<Rightarrow> s2
         | Succeeded \<Rightarrow> s2 @ [P DATABASE 1 None, Task_ok K_records]
         | Failed \<Rightarrow>
             (case upsert_error e of
                Some err \<Rightarrow> s0 @ [Task_failed K_records err]
              | None \<Rightarrow>
                  (case destroy_error e of
                     Some err \<Rightarrow> s1 @ [Task_failed K_records err]
                   | None \<Rightarrow>
                       (case bulkCreate_error e of
                          Some err \<Rightarrow> s2 @ [Task_failed K_records err]
                        | None \<Rightarrow> s2)))
         | _ \<Rightarrow> [])"

definition webhooks_script :: "env \<Rightarrow> github_api \<Rightarrow> github_url \<Rightarrow> pc \<Rightarrow> event list" where
  "webhooks_script e gh u p =
     (let R = the (fetched_repo e gh u);
          s0 = [Invoke K_webhooks, P WEBHOOK 0 None, Call (CreateHook (owner R) (name R))]
      in case p of
           Awaiting_createHook \<Rightarrow> s0
         | Succeeded \<Rightarrow>
             s0 @ [P WEBHOOK 1 (err_and_message (createHook gh (owner R) (name R))), Task_ok K_webhooks]
         | _ \<Rightarrow> [])"

definition train_script :: "env \<Rightarrow> github_api \<Rightarrow> github_url \<Rightarrow> pc \<Rightarrow> event list" where
  "train_script e gh u p =
     (let R = the (fetched_repo e gh u);
          s0 = [Invoke K_train, P TRAIN 0 None,
                Call (Train (owner R) (name R) (attached_issues e gh u) [])]
      in if length (attached_issues e gh u) \<le> 1
         then (case p of
                 Succeeded \<Rightarrow> [Invoke K_train, P TRAIN 0 None, P TRAIN 1 None, Task_ok K_train]
               | _ \<Rightarrow> [])
         else (case p of
                 Awaiting_train \<Rightarrow> s0
               | Succeeded \<Rightarrow> s0 @ [P TRAIN 1 None, Task_ok K_train]
               | Failed \<Rightarrow> s0 @ [Task_failed K_train (projl (trainer_answer e gh u))]
               | _ \<Rightarrow> []))"

definition script :: "env \<Rightarrow> github_api \<Rightarrow> github_url \<Rightarrow> key \<Rightarrow> pc \<Rightarrow> event list" where
  "script e gh u k p =
     (case k of
        K_repo \<Rightarrow> repo_script gh u p
      | K_issues \<Rightarrow> issues_script e u p
      | K_records \<Rightarrow> records_script e gh u p
      | K_webhooks \<Rightarrow> webhooks_script e gh u p
      | K_train \<Rightarrow> train_script e gh u p)"

definition scripted :: "env \<Rightarrow> github_api \<Rightarrow> github_url \<Rightarrow> state \<Rightarrow> bool" where
  "scripted e gh u st = (\<forall>k. events_of k (trace st) = script e gh u k (phases st k))"

definition progress_of :: "sync_task \<Rightarrow> event list \<Rightarrow> progress_event list" where
  "progress_of t tr =
     concat (map (\<lambda>ev. case ev of Progress p \<Rightarrow> (if task p = t then [p] else []) | _ \<Rightarrow> []) tr)"

definition percents_of :: "sync_task \<Rightarrow> event list \<Rightarrow> rat list" where
  "percents_of t tr = map percent (progress_of t tr)"

definition calls_of :: "key \<Rightarrow> event list \<Rightarrow> call list" where
  "calls_of k tr =
     concat (map (\<lambda>ev. case ev of Call c \<Rightarrow> (if caller c = k then [c] else []) | _ \<Rightarrow> []) tr)"

definition acme_url :: string where
  "acme_url = ''https://github.com/acme/widgets''"

definition hook_refused :: js_error where
  "hook_refused = JsError (Some ''Validation Failed'')"

definition repo_unreachable :: "string \<Rightarrow> string \<Rightarrow> js_error + github_repo" where
  "repo_unreachable user repo = Inl (JsError (Some ''Not Found''))"

definition no_repo_env :: env where
  "no_repo_env =
     (demo_env None [] [1, 2, 3])
       \<lparr>socket_github := Some \<lparr>repos_get = repo_unreachable, createHook = hook_answers None\<rparr>\<rparr>"

definition db_down_env :: env where
  "db_down_env = (demo_env None [] [1, 2])\<lparr>upsert_error := Some (JsError (Some ''db down''))\<rparr>"

definition wobbly_env :: env where
  "wobbly_env = demo_env None [1/2, 1/5] [1, 2, 3]"

definition invoked_after_deps :: "event list \<Rightarrow> bool" where
  "invoked_after_deps tr =
     (\<forall>pre k post. tr = pre @ Invoke k # post \<longrightarrow> (\<forall>dd\<in>set (deps k). Task_ok dd \<in> set pre))"

definition ordered :: "env \<Rightarrow> github_api \<Rightarrow> github_url \<Rightarrow> state \<Rightarrow> bool" where
  "ordered e gh u st = (scripted e gh u st \<and> invoked_after_deps (trace st))"

definition answered :: "github_url \<Rightarrow> state \<Rightarrow> bool" where
  "answered u st =
     ((hasError st \<longleftrightarrow> (\<exists>k. phases st k = Failed)) \<and>
      (delivered st = None \<longrightarrow> \<not> hasError st) \<and>
      (\<forall>r. delivered st = Some r \<and> \<not> hasError st \<longrightarrow>
         r = \<lparr>reply_error = None, reply_results = Some (results st)\<rparr> \<and>
         in_flight st = [] \<and> (\<forall>k. \<not> ready st k)))"


definition delivered_value :: "state \<Rightarrow> key \<Rightarrow> val option" where
  "delivered_value st k =
     (case delivered st of
        None \<Rightarrow> None
      | Some r \<Rightarrow> (case reply_results r of None \<Rightarrow> None | Some res \<Rightarrow> res k))"

definition no_summary :: "state \<Rightarrow> bool" where
  "no_summary st = (delivered_value st K_train = None \<or> delivered_value st K_train = Some Undefined)"

definition stale_db :: database where
  "stale_db =
     \<lparr>repositories = [stored_acme\<lparr>description := ''An older description''\<rparr>],
      issues_table = stored_issues\<rparr>"

definition persisted :: "repository \<Rightarrow> issue list \<Rightarrow> database \<Rightarrow> database" where
  "persisted R is d = fst (Issue_bulkCreate is (Issue_destroy (repo_id R) (Repository_upsert R d)))"

section \<open>Validation before the pipeline starts\<close>

lemma trace_reply_only: "trace (reply_only err (initial d)) = []"
  by (simp add: reply_only_def initial_def)

lemma db_reply_only: "db (reply_only err (initial d)) = d"
  by (simp add: reply_only_def initial_def)

lemma delivered_reply_only:
  "delivered (reply_only err (initial d)) = Some \<lparr>reply_error = Some err, reply_results = None\<rparr>"
  by (simp add: reply_only_def initial_def)

text \<open>
  Claim C9. The handler validates before it starts the pipeline. A request whose caller
  has no GitHub session is answered \<open>MISSING_GITHUB\<close>; the session is what the handler
  requires first, so this holds whatever the URL. A request of a caller with a session
  whose URL \<^verbatim>\<open>parseGitHubUrl\<close> rejects, or in which it finds no repository name, is
  answered with the invalid-URL message. In both cases the trace of the request is empty
  (no progress event, no task body invoked, no room joined) and the database is untouched.
\<close>

theorem sync_validates_first:
  "(socket_github e = None \<longrightarrow>
      delivered (REPOSITORY_SYNC e sched url d) = Some \<lparr>reply_error = Some MISSING_GITHUB, reply_results = None\<rparr> \<and>
      trace (REPOSITORY_SYNC e sched url d) = [] \<and> db (REPOSITORY_SYNC e sched url d) = d) \<and>
   (socket_github e \<noteq> None \<and>
      (parseGitHubUrl e url = None \<or> (\<exists>u. parseGitHubUrl e url = Some u \<and> url_name u = [])) \<longrightarrow>
      delivered (REPOSITORY_SYNC e sched url d) = Some \<lparr>reply_error = Some invalid_url, reply_results = None\<rparr> \<and>
      trace (REPOSITORY_SYNC e sched url d) = [] \<and> db (REPOSITORY_SYNC e sched url d) = d)"
proof (intro conjI impI)
  assume "socket_github e = None"
  then have eq: "REPOSITORY_SYNC e sched url d = reply_only MISSING_GITHUB (initial d)"
    by (simp add: REPOSITORY_SYNC_def)
  show "delivered (REPOSITORY_SYNC e sched url d) = Some \<lparr>reply_error = Some MISSING_GITHUB, reply_results = None\<rparr>"
    by (simp only: eq delivered_reply_only)
  show "trace (REPOSITORY_SYNC e sched url d) = []" by (simp only: eq trace_reply_only)
  show "db (REPOSITORY_SYNC e sched url d) = d" by (simp only: eq db_reply_only)
next
  assume a: "socket_github e \<noteq> None \<and>
      (parseGitHubUrl e url = None \<or> (\<exists>u. parseGitHubUrl e url = Some u \<and> url_name u = []))"
  then have eq: "REPOSITORY_SYNC e sched url d = reply_only invalid_url (initial d)"
    by (auto simp: REPOSITORY_SYNC_def)
  show "delivered (REPOSITORY_SYNC e sched url d) = Some \<lparr>reply_error = Some invalid_url, reply_results = None\<rparr>"
    by (simp only: eq delivered_reply_only)
  show "trace (REPOSITORY_SYNC e sched url d) = []" by (simp only: eq trace_reply_only)
  show "db (REPOSITORY_SYNC e sched url d) = d" by (simp only: eq db_reply_only)
qed

lemma parse_no_name: "parse_github_url ''https://github.com/acme'' =
    Some \<lparr>url_owner = ''acme'', url_name = [], url_repo = []\<rparr>"
  by code_simp

theorem sync_validates_first_witness:
  "socket_github anonymous_env = None \<and>
   delivered (REPOSITORY_SYNC anonymous_env [] ''https://github.com/acme/widgets'' empty_db) =
     Some \<lparr>reply_error = Some MISSING_GITHUB, reply_results = None\<rparr> \<and>
   trace (REPOSITORY_SYNC anonymous_env [] ''https://github.com/acme/widgets'' empty_db) = [] \<and>
   socket_github (demo_env None [] []) \<noteq> None \<and>
   parseGitHubUrl (demo_env None [] []) ''https://github.com/acme'' =
     Some \<lparr>url_owner = ''acme'', url_name = [], url_repo = []\<rparr> \<and>
   delivered (REPOSITORY_SYNC (demo_env None [] []) [] ''https://github.com/acme'' empty_db) =
     Some \<lparr>reply_error = Some invalid_url, reply_results = None\<rparr> \<and>
   trace (REPOSITORY_SYNC (demo_env None [] []) [] ''https://github.com/acme'' empty_db) = []"
  using sync_validates_first [of anonymous_env "[]" "''https://github.com/acme/widgets''" empty_db]
    sync_validates_first [of "demo_env None [] []" "[]" "''https://github.com/acme''" empty_db]
  by (simp add: anonymous_env_def demo_env_def parse_no_name)

section \<open>The administrative training entry point\<close>

text \<open>
  Claim C6, as amended. For the id of a stored repository, \<^verbatim>\<open>Repository.train\<close> loads the
  repository's issues and, when that load succeeds, calls the classifier on them exactly
  once, with the repository's owner and name and no ignored labels. The classifier's
  summary is printed, and an error of the load or of the classifier is caught and printed;
  the caller's promise is fulfilled with no value in every one of these cases, so the
  caller receives neither the summary nor the error.
\<close>

theorem train_repository_only_logs:
  assumes "Repository_findById m repoId = Inr (Some repo)"
  shows "fst (class_train m repoId) = Inr Undefined \<and>
         trainer_calls (snd (class_train m repoId)) =
           (case Issue_findAll m (repo_id repo) of
              Inl err \<Rightarrow> []
            | Inr issues \<Rightarrow> [(owner repo, name repo, issues, [])]) \<and>
         (\<forall>err. Issue_findAll m (repo_id repo) = Inl err \<longrightarrow>
            Console_error err \<in> set (console_lines (snd (class_train m repoId)))) \<and>
         (\<forall>issues err.
            Issue_findAll m (repo_id repo) = Inr issues \<and>
            train m (owner repo) (name repo) issues [] = Inl err \<longrightarrow>
            Console_error err \<in> set (console_lines (snd (class_train m repoId)))) \<and>
         (\<forall>issues resp.
            Issue_findAll m (repo_id repo) = Inr issues \<and>
            train m (owner repo) (name repo) issues [] = Inr resp \<longrightarrow>
            Log_summary resp \<in> set (console_lines (snd (class_train m repoId))))"
proof -
  have ct: "class_train m repoId = (Inr (fst (instance_train m repo)), snd (instance_train m repo))"
    using assms by (simp add: class_train_def split: prod.splits)
  have v: "fst (instance_train m repo) = Undefined"
    by (simp add: instance_train_def)
  show ?thesis
    unfolding ct fst_conv snd_conv v
    by (auto simp: instance_train_def split: sum.splits)
qed

lemma stored_acme_fields:
  "repo_id stored_acme = 42" "owner stored_acme = ''acme''" "name stored_acme = ''widgets''"
  by (simp_all add: stored_acme_def transformFields_def acme_def)

theorem train_repository_only_logs_witness:
  "Repository_findById (demo_models (Inl training_failed)) 42 = Inr (Some stored_acme) \<and>
   fst (class_train (demo_models (Inl training_failed)) 42) = Inr Undefined \<and>
   trainer_calls (snd (class_train (demo_models (Inl training_failed)) 42)) =
     [(''acme'', ''widgets'', stored_issues, [])] \<and>
   Console_error training_failed \<in>
     set (console_lines (snd (class_train (demo_models (Inl training_failed)) 42)))"
proof -
  have f: "Repository_findById (demo_models (Inl training_failed)) 42 = Inr (Some stored_acme)"
    by (simp add: demo_models_def find_acme_def)
  have fa: "Issue_findAll (demo_models (Inl training_failed)) (repo_id stored_acme) = Inr stored_issues"
    by (simp add: demo_models_def find_issues_def stored_acme_fields)
  have tr: "train (demo_models (Inl training_failed)) (owner stored_acme) (name stored_acme) stored_issues [] =
      Inl training_failed"
    by (simp add: demo_models_def trainer_answers_def)
  from train_repository_only_logs [OF f] fa tr f show ?thesis
    by (simp add: stored_acme_fields)
qed

text \<open>The claim as written has the caller receive the classifier's error, or its
  summary. Here the classifier fails on the two stored issues and the caller's promise is
  fulfilled with no value; had it succeeded, the caller would have got no value either.\<close>

theorem train_repository_counterexample:
  "Repository_findById (demo_models (Inl training_failed)) 42 = Inr (Some stored_acme) \<and>
   train (demo_models (Inl training_failed)) ''acme'' ''widgets'' stored_issues [] = Inl training_failed \<and>
   fst (class_train (demo_models (Inl training_failed)) 42) \<noteq> Inl training_failed \<and>
   train (demo_models (Inr demo_summary)) ''acme'' ''widgets'' stored_issues [] = Inr demo_summary \<and>
   fst (class_train (demo_models (Inr demo_summary)) 42) \<noteq> Inr (SummaryVal demo_summary)"
  by (simp add: demo_models_def find_acme_def trainer_answers_def class_train_def instance_train_def)

section \<open>Every move of the run is one of the listed transitions\<close>

lemmas op_defs = emit_def progress_def set_pc_def throw_def task_failed_def task_succeeded_def
  final_callback_def settle_def

lemma start_launched:
  assumes "phases s j = NotStarted"
  shows "launched j s (settle u j (start u j (emit (Invoke j) s)))"
proof (cases j)
  case K_repo then show ?thesis using assms by (simp add: launched_def repo_start_def op_defs)
next
  case K_issues then show ?thesis using assms by (simp add: launched_def issues_start_def op_defs)
next
  case K_records then show ?thesis using assms
    by (simp add: launched_def records_start_def op_defs Let_def split: option.splits val.splits)
next
  case K_webhooks then show ?thesis using assms
    by (simp add: launched_def webhooks_start_def op_defs Let_def split: option.splits val.splits)
next
  case K_train then show ?thesis using assms
    by (simp add: launched_def train_start_def op_defs Let_def split: option.splits val.splits)
qed

lemma train_no_dep: "K_train \<notin> set (deps k)"
  by (cases k) simp_all

lemma unready_after: "\<not> ready (run_task u j s) j"
proof (cases "ready s j")
  case False then show ?thesis by (simp add: run_task_def)
next
  case True
  then have "phases s j = NotStarted" by (simp add: ready_def)
  from start_launched[OF this, of u] show ?thesis using True by (auto simp: run_task_def launched_def ready_def)
qed

lemma unready_kept:
  assumes "k \<noteq> j" "\<not> ready s k"
  shows "\<not> ready (run_task u j s) k"
proof (cases "ready s j")
  case False then show ?thesis using assms by (simp add: run_task_def)
next
  case True
  let ?s = "settle u j (start u j (emit (Invoke j) s))"
  have l: "launched j s ?s" using True by (intro start_launched) (simp add: ready_def)
  have nu: "\<not> uncaught s" using True by (simp add: ready_def)
  show ?thesis
  proof
    assume r: "ready (run_task u j s) k"
    then have r': "ready ?s k" using True by (simp add: run_task_def)
    have "phases s d = Succeeded" if "d \<in> set (deps k)" for d
    proof (cases "d = j")
      case False
      with l have "phases ?s d = phases s d" by (simp add: launched_def)
      with r' that show ?thesis by (simp add: ready_def list_all_iff)
    next
      case True
      from r' that True have "phases ?s j = Succeeded" by (simp add: ready_def list_all_iff)
      with l have "j = K_train" by (simp add: launched_def)
      with that True train_no_dep show ?thesis by simp
    qed
    then have "list_all (\<lambda>d. phases s d = Succeeded) (deps k)" by (simp add: list_all_iff)
    moreover have "phases s k = NotStarted" "\<not> hasError s"
      using r' l assms(1) by (simp_all add: ready_def launched_def)
    ultimately have "ready s k" using nu by (simp add: ready_def)
    with assms(2) show False by simp
  qed
qed

lemma fold_unready:
  "(\<forall>k\<in>A. \<not> ready s k) \<Longrightarrow> \<forall>k\<in>A \<union> set ks. \<not> ready (fold (run_task u) ks s) k"
proof (induction ks arbitrary: s A)
  case Nil then show ?case by simp
next
  case (Cons j ks)
  have "\<forall>k\<in>insert j A. \<not> ready (run_task u j s) k"
    using Cons.prems unready_after[of u j s] unready_kept[of _ j s u] by (metis insert_iff)
  from Cons.IH[OF this] show ?case by simp
qed

lemma all_keys_complete: "k \<in> set all_keys"
  by (cases k) (simp_all add: all_keys_def)

lemma none_ready_after_queue: "\<not> ready (fold (run_task u) all_keys s) k"
  using fold_unready[of "{}" s all_keys u] all_keys_complete by simp

text \<open>A key other than \<open>j\<close> is not affected when \<open>j\<close>, not yet succeeded, moves on.\<close>

lemma ok_frame:
  assumes "ok e gh u f k" "k \<noteq> j" "f j \<noteq> Succeeded"
  shows "ok e gh u (f(j := p)) k"
proof -
  have "deps_done (f(j := p)) k"
    using assms by (cases k) (auto simp: ok_def deps_done_def)
  then show ?thesis using assms by (simp add: ok_def)
qed

text \<open>A key \<open>j\<close> that moves on: what has to hold of its new suspension point.\<close>

lemma ok_move:
  assumes "\<forall>k. ok e gh u f k" "f j \<noteq> Succeeded"
    and "pc_ok j p" "agrees e gh u j p" "list_all (\<lambda>d. f d = Succeeded) (deps j)"
  shows "\<forall>k. ok e gh u (f(j := p)) k"
proof
  fix k
  show "ok e gh u (f(j := p)) k"
  proof (cases "k = j")
    case False
    then show ?thesis using assms(1,2) by (simp add: ok_frame)
  next
    case True
    have "deps_done (f(j := p)) j"
      using assms(5) by (cases j) (auto simp: deps_done_def)
    then show ?thesis using True assms(3,4) by (simp add: ok_def)
  qed
qed

lemma ok_deps: "ok e gh u f k \<Longrightarrow> f k \<noteq> NotStarted \<Longrightarrow> list_all (\<lambda>d. f d = Succeeded) (deps k)"
  by (simp add: ok_def deps_done_def)

lemma task_failed_eq:
  "task_failed u k err st =
     st\<lparr>phases := (phases st)(k := Failed), hasError := True,
        delivered := (if delivered st = None
                      then Some \<lparr>reply_error = map_option Message (err_message err),
                                 reply_results = Some ((results st)(k \<mapsto> Undefined))\<rparr>
                      else delivered st),
        trace := trace st @ Task_failed k err # (if delivered st = None then [Leave (repoRoom u)] else [])\<rparr>"
  by (simp add: op_defs err_and_message_def)

lemma final_callback_eq:
  "final_callback u None res st =
     st\<lparr>delivered := (if delivered st = None
                      then Some \<lparr>reply_error = None, reply_results = Some res\<rparr>
                      else delivered st),
        trace := trace st @ (if delivered st = None then [Leave (repoRoom u)] else [])\<rparr>"
  by (simp add: op_defs err_and_message_def)

lemma exec_start_repo:
  "settle u K_repo (start u K_repo (emit (Invoke K_repo) st)) =
     st\<lparr>phases := (phases st)(K_repo := Awaiting_get),
        trace := trace st @ [Invoke K_repo, P REPO 0 None, Call (Repos_get (url_owner u) (url_name u))]\<rparr>"
  by (simp add: repo_start_def op_defs)

lemma exec_start_issues:
  "settle u K_issues (start u K_issues (emit (Invoke K_issues) st)) =
     st\<lparr>phases := (phases st)(K_issues := Awaiting_getIssues 0),
        trace := trace st @ [Invoke K_issues, Call (GetIssues (url_owner u) (url_name u))]\<rparr>"
  by (simp add: issues_start_def op_defs)

lemma exec_start_records:
  "results st K_repo = Some (RepoVal R) \<Longrightarrow>
   settle u K_records (start u K_records (emit (Invoke K_records) st)) =
     st\<lparr>phases := (phases st)(K_records := Awaiting_upsert),
        trace := trace st @ [Invoke K_records, P DATABASE 0 None, Call (Upsert R)]\<rparr>"
  by (simp add: records_start_def op_defs)

lemma exec_start_webhooks:
  "results st K_repo = Some (RepoVal R) \<Longrightarrow>
   settle u K_webhooks (start u K_webhooks (emit (Invoke K_webhooks) st)) =
     st\<lparr>phases := (phases st)(K_webhooks := Awaiting_createHook),
        trace := trace st @ [Invoke K_webhooks, P WEBHOOK 0 None, Call (CreateHook (owner R) (name R))]\<rparr>"
  by (simp add: webhooks_start_def op_defs)

lemma exec_start_train_skip:
  "results st K_issues = Some (IssuesVal I) \<Longrightarrow> length I \<le> 1 \<Longrightarrow>
   settle u K_train (start u K_train (emit (Invoke K_train) st)) =
     st\<lparr>phases := (phases st)(K_train := Succeeded),
        results := (results st)(K_train \<mapsto> Undefined),
        trace := trace st @ [Invoke K_train, P TRAIN 0 None, P TRAIN 1 None, Task_ok K_train]\<rparr>"
  by (simp add: train_start_def op_defs)

lemma exec_start_train_call:
  "results st K_issues = Some (IssuesVal I) \<Longrightarrow> 1 < length I \<Longrightarrow> results st K_repo = Some (RepoVal R) \<Longrightarrow>
   settle u K_train (start u K_train (emit (Invoke K_train) st)) =
     st\<lparr>phases := (phases st)(K_train := Awaiting_train),
        trace := trace st @ [Invoke K_train, P TRAIN 0 None, Call (Train (owner R) (name R) I [])]\<rparr>"
  by (simp add: train_start_def op_defs)

lemma exec_repo_ok:
  "phases st K_repo = Awaiting_get \<Longrightarrow> repos_get gh (url_owner u) (url_name u) = Inr r \<Longrightarrow>
   settle u K_repo (resume e gh u K_repo st) =
     st\<lparr>phases := (phases st)(K_repo := Succeeded),
        results := (results st)(K_repo \<mapsto> RepoVal ((transformFields r)\<lparr>token := socket_token e\<rparr>)),
        trace := trace st @ [P REPO 1 None, Task_ok K_repo]\<rparr>"
  by (simp add: resume_def repo_resume_def op_defs)

lemma exec_repo_err:
  "phases st K_repo = Awaiting_get \<Longrightarrow> repos_get gh (url_owner u) (url_name u) = Inl err \<Longrightarrow>
   settle u K_repo (resume e gh u K_repo st) = task_failed u K_repo err st"
  by (simp add: resume_def repo_resume_def settle_def)

lemma exec_issues_report:
  "phases st K_issues = Awaiting_getIssues n \<Longrightarrow> getIssues e (url_owner u) (url_name u) = (ps, settled) \<Longrightarrow>
   n < length ps \<Longrightarrow>
   settle u K_issues (resume e gh u K_issues st) =
     st\<lparr>phases := (phases st)(K_issues := Awaiting_getIssues (Suc n)),
        trace := trace st @ [P ISSUES (ps ! n) None]\<rparr>"
  by (simp add: resume_def issues_resume_def op_defs)

lemma exec_issues_ok:
  "phases st K_issues = Awaiting_getIssues n \<Longrightarrow> getIssues e (url_owner u) (url_name u) = (ps, Inr found) \<Longrightarrow>
   \<not> n < length ps \<Longrightarrow>
   settle u K_issues (resume e gh u K_issues st) =
     st\<lparr>phases := (phases st)(K_issues := Succeeded),
        results := (results st)(K_issues \<mapsto> IssuesVal (map (Issue_transformFields e) found)),
        trace := trace st @ [P ISSUES 1 None, Task_ok K_issues]\<rparr>"
  by (simp add: resume_def issues_resume_def op_defs)

lemma exec_issues_err:
  "phases st K_issues = Awaiting_getIssues n \<Longrightarrow> getIssues e (url_owner u) (url_name u) = (ps, Inl err) \<Longrightarrow>
   \<not> n < length ps \<Longrightarrow>
   settle u K_issues (resume e gh u K_issues st) = task_failed u K_issues err st"
  by (simp add: resume_def issues_resume_def settle_def)

lemma exec_upserted_ok:
  "phases st K_records = Awaiting_upsert \<Longrightarrow> results st K_repo = Some (RepoVal R) \<Longrightarrow> upsert_error e = None \<Longrightarrow>
   settle u K_records (resume e gh u K_records st) =
     st\<lparr>phases := (phases st)(K_records := Awaiting_destroy),
        db := Repository_upsert R (db st),
        trace := trace st @ [P DATABASE (1/2) None, Call (Destroy (repo_id R))]\<rparr>"
  by (simp add: resume_def records_upserted_def op_defs)

lemma exec_upserted_err:
  "phases st K_records = Awaiting_upsert \<Longrightarrow> results st K_repo = Some (RepoVal R) \<Longrightarrow> upsert_error e = Some err \<Longrightarrow>
   settle u K_records (resume e gh u K_records st) = task_failed u K_records err st"
  by (simp add: resume_def records_upserted_def settle_def)

lemma exec_destroyed_ok:
  "phases st K_records = Awaiting_destroy \<Longrightarrow> results st K_repo = Some (RepoVal R) \<Longrightarrow>
   results st K_issues = Some (IssuesVal I) \<Longrightarrow> destroy_error e = None \<Longrightarrow>
   settle u K_records (resume e gh u K_records st) =
     st\<lparr>phases := (phases st)(K_records := Awaiting_bulkCreate),
        results := (results st)(K_issues \<mapsto> IssuesVal (map (attach (repo_id R)) I)),
        db := Issue_destroy (repo_id R) (db st),
        trace := trace st @ [P DATABASE (3/5) None, Call (BulkCreate (map (attach (repo_id R)) I))]\<rparr>"
  by (simp add: resume_def records_destroyed_def op_defs Let_def)

lemma exec_destroyed_err:
  "phases st K_records = Awaiting_destroy \<Longrightarrow> results st K_repo = Some (RepoVal R) \<Longrightarrow>
   results st K_issues = Some (IssuesVal I) \<Longrightarrow> destroy_error e = Some err \<Longrightarrow>
   settle u K_records (resume e gh u K_records st) = task_failed u K_records err st"
  by (simp add: resume_def records_destroyed_def settle_def)

lemma exec_created_ok:
  "phases st K_records = Awaiting_bulkCreate \<Longrightarrow> results st K_issues = Some (IssuesVal I) \<Longrightarrow>
   bulkCreate_error e = None \<Longrightarrow>
   settle u K_records (resume e gh u K_records st) =
     st\<lparr>phases := (phases st)(K_records := Succeeded),
        results := (results st)(K_records \<mapsto> IssuesVal I),
        db := fst (Issue_bulkCreate I (db st)),
        trace := trace st @ [P DATABASE 1 None, Task_ok K_records]\<rparr>"
  by (simp add: resume_def records_created_def op_defs Issue_bulkCreate_def)

lemma exec_created_err:
  "phases st K_records = Awaiting_bulkCreate \<Longrightarrow> results st K_issues = Some (IssuesVal I) \<Longrightarrow>
   bulkCreate_error e = Some err \<Longrightarrow>
   settle u K_records (resume e gh u K_records st) = task_failed u K_records err st"
  by (simp add: resume_def records_created_def settle_def)

lemma exec_webhooks:
  "phases st K_webhooks = Awaiting_createHook \<Longrightarrow> results st K_repo = Some (RepoVal R) \<Longrightarrow>
   settle u K_webhooks (resume e gh u K_webhooks st) =
     st\<lparr>phases := (phases st)(K_webhooks := Succeeded),
        results := (results st)(K_webhooks \<mapsto> Undefined),
        trace := trace st @ [P WEBHOOK 1 (err_and_message (createHook gh (owner R) (name R))), Task_ok K_webhooks]\<rparr>"
  by (simp add: resume_def webhooks_resume_def op_defs)

lemma exec_train_ok:
  "phases st K_train = Awaiting_train \<Longrightarrow> results st K_repo = Some (RepoVal R) \<Longrightarrow>
   results st K_issues = Some (IssuesVal I) \<Longrightarrow> classifier_train e (owner R) (name R) I [] = Inr s \<Longrightarrow>
   settle u K_train (resume e gh u K_train st) =
     st\<lparr>phases := (phases st)(K_train := Succeeded),
        results := (results st)(K_train \<mapsto> Undefined),
        trace := trace st @ [P TRAIN 1 None, Task_ok K_train]\<rparr>"
  by (simp add: resume_def train_resume_def op_defs)

lemma exec_train_err:
  "phases st K_train = Awaiting_train \<Longrightarrow> results st K_repo = Some (RepoVal R) \<Longrightarrow>
   results st K_issues = Some (IssuesVal I) \<Longrightarrow> classifier_train e (owner R) (name R) I [] = Inl err \<Longrightarrow>
   settle u K_train (resume e gh u K_train st) = task_failed u K_train err st"
  by (simp add: resume_def train_resume_def settle_def)

lemma sane_ok: "sane e gh u d st \<Longrightarrow> ok e gh u (phases st) k"
  by (simp add: sane_def)

lemma sane_repo:
  assumes "sane e gh u d st" "phases st K_repo = Succeeded"
  obtains R where "fetched_repo e gh u = Some R" "results st K_repo = Some (RepoVal R)"
proof -
  from sane_ok[OF assms(1), of K_repo] assms(2) obtain R where R: "fetched_repo e gh u = Some R"
    by (auto simp: ok_def agrees_def)
  moreover have "results st K_repo = Some (RepoVal R)"
    using assms R by (simp add: sane_def results_now_def)
  ultimately show ?thesis by (rule that)
qed

lemma sane_issues:
  assumes "sane e gh u d st" "phases st K_issues = Succeeded"
  obtains I where "fetched_issues e u = Some I"
    "results st K_issues = Some (IssuesVal (if is_attached e (phases st K_records) then attached_issues e gh u else I))"
proof -
  from sane_ok[OF assms(1), of K_issues] assms(2) obtain I where I: "fetched_issues e u = Some I"
    by (auto simp: ok_def agrees_def)
  moreover have "results st K_issues =
      Some (IssuesVal (if is_attached e (phases st K_records) then attached_issues e gh u else I))"
    using assms I by (simp add: sane_def results_now_def)
  ultimately show ?thesis by (rule that)
qed

lemma sane_deps:
  "sane e gh u d st \<Longrightarrow> phases st k \<noteq> NotStarted \<Longrightarrow> d' \<in> set (deps k) \<Longrightarrow> phases st d' = Succeeded"
  using ok_deps[OF sane_ok, of e gh u d st k] by (simp add: list_all_iff)

lemma ready_deps: "ready st k \<Longrightarrow> d' \<in> set (deps k) \<Longrightarrow> phases st d' = Succeeded"
  by (simp add: ready_def list_all_iff)

lemma link_start:
  assumes s: "sane e gh u d st" and r: "ready st k"
  shows "trans e gh u st (settle u k (start u k (emit (Invoke k) st)))"
proof (cases k)
  case K_repo
  show ?thesis unfolding K_repo exec_start_repo using r K_repo by (auto intro: trans.start_repo)
next
  case K_issues
  show ?thesis unfolding K_issues exec_start_issues using r K_issues by (auto intro: trans.start_issues)
next
  case K_records
  from ready_deps[OF r, of K_repo] K_records have "phases st K_repo = Succeeded" by simp
  from sane_repo[OF s this] obtain R where R: "fetched_repo e gh u = Some R" "results st K_repo = Some (RepoVal R)" .
  show ?thesis unfolding K_records exec_start_records[OF R(2)]
    using r K_records R(1) by (auto intro: trans.start_records)
next
  case K_webhooks
  from ready_deps[OF r, of K_repo] K_webhooks have "phases st K_repo = Succeeded" by simp
  from sane_repo[OF s this] obtain R where R: "fetched_repo e gh u = Some R" "results st K_repo = Some (RepoVal R)" .
  show ?thesis unfolding K_webhooks exec_start_webhooks[OF R(2)]
    using r K_webhooks R(1) by (auto intro: trans.start_webhooks)
next
  case K_train
  from ready_deps[OF r, of K_repo] K_train have pr: "phases st K_repo = Succeeded" by simp
  from ready_deps[OF r, of K_records] K_train have pd: "phases st K_records = Succeeded" by simp
  from sane_deps[OF s, of K_records K_issues] pd have pi: "phases st K_issues = Succeeded" by simp
  from sane_repo[OF s pr] obtain R where R: "fetched_repo e gh u = Some R" "results st K_repo = Some (RepoVal R)" .
  from sane_issues[OF s pi] pd have I: "results st K_issues = Some (IssuesVal (attached_issues e gh u))"
    by (auto simp: is_attached_def)
  show ?thesis
  proof (cases "length (attached_issues e gh u) \<le> 1")
    case True
    show ?thesis unfolding K_train exec_start_train_skip[OF I True]
      using r K_train True by (auto intro: trans.start_train_skip)
  next
    case False
    then have m: "1 < length (attached_issues e gh u)" by simp
    show ?thesis unfolding K_train exec_start_train_call[OF I m R(2)]
      using r K_train m R(1) by (auto intro: trans.start_train_call)
  qed
qed

lemma in_flightD: "k \<in> set (in_flight st) \<Longrightarrow> \<not> uncaught st \<and> awaiting k (phases st k)"
  by (auto simp: in_flight_def split: if_splits)

lemma link_resume:
  assumes s: "sane e gh u d st" and r: "k \<in> set (in_flight st)"
  shows "trans e gh u st (settle u k (resume e gh u k st))"
proof -
  from in_flightD[OF r] have aw: "awaiting k (phases st k)" by simp
  then have ns: "phases st k \<noteq> NotStarted" by (auto simp: awaiting_def split: key.splits)
  show ?thesis
  proof (cases k)
    case K_repo
    with aw have pc: "phases st K_repo = Awaiting_get" by (simp add: awaiting_def)
    show ?thesis
    proof (cases "repos_get gh (url_owner u) (url_name u)")
      case (Inl err)
      show ?thesis unfolding K_repo exec_repo_err[OF pc Inl] by (rule trans.repo_err[OF pc Inl])
    next
      case (Inr r)
      then have R: "fetched_repo e gh u = Some ((transformFields r)\<lparr>token := socket_token e\<rparr>)"
        by (simp add: fetched_repo_def)
      show ?thesis unfolding K_repo exec_repo_ok[OF pc Inr] by (rule trans.repo_ok[OF pc R])
    qed
  next
    case K_issues
    with aw obtain n where pc: "phases st K_issues = Awaiting_getIssues n"
      by (auto simp: awaiting_def split: pc.splits)
    obtain ps settled where g: "getIssues e (url_owner u) (url_name u) = (ps, settled)"
      by (cases "getIssues e (url_owner u) (url_name u)")
    then have len: "reports e u = length ps" by (simp add: reports_def)
    from sane_ok[OF s, of K_issues] pc have le: "n \<le> reports e u" by (simp add: ok_def agrees_def)
    show ?thesis
    proof (cases "n < length ps")
      case True
      have "trans e gh u st
         (st\<lparr>phases := (phases st)(K_issues := Awaiting_getIssues (Suc n)),
             trace := trace st @ [P ISSUES (fst (getIssues e (url_owner u) (url_name u)) ! n) None]\<rparr>)"
        using True len by (intro trans.issues_report[OF pc]) simp
      then show ?thesis unfolding K_issues exec_issues_report[OF pc g True] by (simp add: g)
    next
      case False
      with le len have n: "n = reports e u" by simp
      show ?thesis
      proof (cases settled)
        case (Inl err)
        have "snd (getIssues e (url_owner u) (url_name u)) = Inl err" using g Inl by simp
        from trans.issues_err[OF pc[unfolded n] this]
        show ?thesis unfolding K_issues exec_issues_err[OF pc g[unfolded Inl] False] .
      next
        case (Inr found)
        have "fetched_issues e u = Some (map (Issue_transformFields e) found)"
          using g Inr by (simp add: fetched_issues_def)
        from trans.issues_ok[OF pc[unfolded n] this]
        show ?thesis unfolding K_issues exec_issues_ok[OF pc g[unfolded Inr] False] .
      qed
    qed
  next
    case K_records
    from sane_deps[OF s, of K_records K_repo] ns K_records have pr: "phases st K_repo = Succeeded" by simp
    from sane_deps[OF s, of K_records K_issues] ns K_records have pi: "phases st K_issues = Succeeded" by simp
    from sane_repo[OF s pr] obtain R where R: "fetched_repo e gh u = Some R" "results st K_repo = Some (RepoVal R)" .
    from sane_issues[OF s pi] obtain I where I: "fetched_issues e u = Some I"
      "results st K_issues = Some (IssuesVal (if is_attached e (phases st K_records) then attached_issues e gh u else I))" .
    have att: "attached_issues e gh u = map (attach (repo_id R)) I"
      using R(1) I(1) by (simp add: attached_issues_def)
    from sane_ok[OF s, of K_records] have ag: "agrees e gh u K_records (phases st K_records)"
      by (simp add: ok_def)
    from aw K_records consider
      (a) "phases st K_records = Awaiting_upsert" | (b) "phases st K_records = Awaiting_destroy"
      | (c) "phases st K_records = Awaiting_bulkCreate"
      by (auto simp: awaiting_def)
    then show ?thesis
    proof cases
      case a
      show ?thesis
      proof (cases "upsert_error e")
        case None
        show ?thesis unfolding K_records exec_upserted_ok[OF a R(2) None]
          by (rule trans.upserted_ok[OF a R(1) None])
      next
        case (Some err)
        show ?thesis unfolding K_records exec_upserted_err[OF a R(2) Some]
          by (rule trans.upserted_err[OF a Some])
      qed
    next
      case b
      with ag have ue: "upsert_error e = None" by (simp add: agrees_def)
      from I(2) b have I2: "results st K_issues = Some (IssuesVal I)" by (simp add: is_attached_def)
      show ?thesis
      proof (cases "destroy_error e")
        case None
        show ?thesis unfolding K_records exec_destroyed_ok[OF b R(2) I2 None] att[symmetric]
          by (rule trans.destroyed_ok[OF b R(1) ue None])
      next
        case (Some err)
        show ?thesis unfolding K_records exec_destroyed_err[OF b R(2) I2 Some]
          by (rule trans.destroyed_err[OF b ue Some])
      qed
    next
      case c
      with ag have ue: "upsert_error e = None" and de: "destroy_error e = None" by (simp_all add: agrees_def)
      from I(2) c have I2: "results st K_issues = Some (IssuesVal (attached_issues e gh u))"
        by (simp add: is_attached_def)
      show ?thesis
      proof (cases "bulkCreate_error e")
        case None
        show ?thesis unfolding K_records exec_created_ok[OF c I2 None]
          by (rule trans.created_ok[OF c ue de None])
      next
        case (Some err)
        show ?thesis unfolding K_records exec_created_err[OF c I2 Some]
          by (rule trans.created_err[OF c ue de Some])
      qed
    qed
  next
    case K_webhooks
    with aw have pc: "phases st K_webhooks = Awaiting_createHook" by (simp add: awaiting_def)
    from sane_deps[OF s, of K_webhooks K_repo] ns K_webhooks have pr: "phases st K_repo = Succeeded" by simp
    from sane_repo[OF s pr] obtain R where R: "fetched_repo e gh u = Some R" "results st K_repo = Some (RepoVal R)" .
    show ?thesis unfolding K_webhooks exec_webhooks[OF pc R(2)] by (rule trans.webhooks_done[OF pc R(1)])
  next
    case K_train
    with aw have pc: "phases st K_train = Awaiting_train" by (simp add: awaiting_def)
    from sane_deps[OF s, of K_train K_repo] ns K_train have pr: "phases st K_repo = Succeeded" by simp
    from sane_deps[OF s, of K_train K_records] ns K_train have pd: "phases st K_records = Succeeded" by simp
    from sane_deps[OF s, of K_records K_issues] pd have pi: "phases st K_issues = Succeeded" by simp
    from sane_repo[OF s pr] obtain R where R: "fetched_repo e gh u = Some R" "results st K_repo = Some (RepoVal R)" .
    from sane_issues[OF s pi] pd have I: "results st K_issues = Some (IssuesVal (attached_issues e gh u))"
      by (auto simp: is_attached_def)
    have ta: "trainer_answer e gh u = classifier_train e (owner R) (name R) (attached_issues e gh u) []"
      using R(1) by (simp add: trainer_answer_def)
    show ?thesis
    proof (cases "trainer_answer e gh u")
      case (Inl err)
      show ?thesis unfolding K_train exec_train_err[OF pc R(2) I Inl[unfolded ta]]
        by (rule trans.train_err[OF pc Inl])
    next
      case (Inr sm)
      show ?thesis unfolding K_train exec_train_ok[OF pc R(2) I Inr[unfolded ta]]
        by (rule trans.train_ok[OF pc Inr])
    qed
  qed
qed

lemma sane_update:
  assumes "sane e gh u d st"
    and "phases st j \<noteq> Succeeded" "pc_ok j p" "agrees e gh u j p"
    and "list_all (\<lambda>d. phases st d = Succeeded) (deps j)"
    and "\<not> uncaught st'" "phases st' = (phases st)(j := p)"
    and "results st' = results_now e gh u ((phases st)(j := p))"
    and "db st' = db_now e gh u d (((phases st)(j := p)) K_records)"
  shows "sane e gh u d st'"
proof -
  from assms(1) have "\<forall>k. ok e gh u (phases st) k" by (simp add: sane_def)
  from ok_move[OF this assms(2,3,4,5)] have "\<forall>k. ok e gh u (phases st') k" by (simp add: assms(7))
  then show ?thesis using assms(6,7,8,9) by (simp add: sane_def)
qed

lemma ready_not_succeeded: "ready st k \<Longrightarrow> phases st k = NotStarted"
  by (simp add: ready_def)

lemma ready_deps_all: "ready st k \<Longrightarrow> list_all (\<lambda>d. phases st d = Succeeded) (deps k)"
  by (simp add: ready_def)

lemma results_now_same:
  assumes "f j \<noteq> Succeeded" "p \<noteq> Succeeded" "j = K_records \<longrightarrow> is_attached e p = is_attached e (f K_records)"
  shows "results_now e gh u (f(j := p)) = results_now e gh u f"
  using assms by (auto simp: results_now_def fun_eq_iff split: key.splits)

lemma db_now_same: "j \<noteq> K_records \<Longrightarrow> db_now e gh u d ((f(j := p)) K_records) = db_now e gh u d (f K_records)"
  by simp

lemma sane_parts:
  assumes "sane e gh u d st"
  shows "\<not> uncaught st" "results st = results_now e gh u (phases st)" "db st = db_now e gh u d (phases st K_records)"
  using assms by (simp_all add: sane_def)

lemma sane_failed:
  assumes s: "sane e gh u d st" and aw: "awaiting j (phases st j)" and ag: "agrees e gh u j Failed"
    and att: "j = K_records \<longrightarrow> is_attached e Failed = is_attached e (phases st K_records)"
    and dbn: "j = K_records \<longrightarrow> db_now e gh u d Failed = db_now e gh u d (phases st K_records)"
  shows "sane e gh u d (task_failed u j err st)"
proof (rule sane_update[OF s, where j = j and p = Failed])
  from aw show ns: "phases st j \<noteq> Succeeded" by (auto simp: awaiting_def split: key.splits)
  show "pc_ok j Failed" by (simp add: pc_ok_def)
  show "agrees e gh u j Failed" by (rule ag)
  from aw have "phases st j \<noteq> NotStarted" by (auto simp: awaiting_def split: key.splits)
  from ok_deps[OF sane_ok[OF s] this] show "list_all (\<lambda>d. phases st d = Succeeded) (deps j)" .
  show "\<not> uncaught (task_failed u j err st)" using sane_parts(1)[OF s] by simp
  show "phases (task_failed u j err st) = (phases st)(j := Failed)" by simp
  show "results (task_failed u j err st) = results_now e gh u ((phases st)(j := Failed))"
    using results_now_same[where f = "phases st" and j = j and p = Failed and e = e and gh = gh and u = u]
      ns att sane_parts(2)[OF s] by (simp add: task_failed_eq)
  show "db (task_failed u j err st) = db_now e gh u d (((phases st)(j := Failed)) K_records)"
    using dbn sane_parts(3)[OF s] by (simp add: task_failed_eq)
qed

lemma awaiting_deps:
  "sane e gh u d st \<Longrightarrow> phases st j = p \<Longrightarrow> p \<noteq> NotStarted \<Longrightarrow> list_all (\<lambda>d. phases st d = Succeeded) (deps j)"
  using ok_deps[OF sane_ok, of e gh u d st j] by simp

lemma sane_trans:
  assumes s: "sane e gh u d st" and t: "trans e gh u st st'"
  shows "sane e gh u d st'"
  using t
proof (cases rule: trans.cases)
  case start_repo
  show ?thesis
    using start_repo(2) sane_parts[OF s]
    by (intro sane_update[OF s, where j = K_repo and p = Awaiting_get])
       (simp_all add: start_repo(1) ready_def pc_ok_def awaiting_def agrees_def results_now_same)
next
  case start_issues
  show ?thesis
    using start_issues(2) sane_parts[OF s]
    by (intro sane_update[OF s, where j = K_issues and p = "Awaiting_getIssues 0"])
       (simp_all add: start_issues(1) ready_def pc_ok_def awaiting_def agrees_def results_now_same)
next
  case (start_records R)
  show ?thesis
    using start_records(2) sane_parts[OF s]
    by (intro sane_update[OF s, where j = K_records and p = Awaiting_upsert])
       (simp_all add: start_records(1) ready_def pc_ok_def awaiting_def agrees_def results_now_same
          is_attached_def db_now_def)
next
  case (start_webhooks R)
  show ?thesis
    using start_webhooks(2) sane_parts[OF s]
    by (intro sane_update[OF s, where j = K_webhooks and p = Awaiting_createHook])
       (simp_all add: start_webhooks(1) ready_def pc_ok_def awaiting_def agrees_def results_now_same)
next
  case start_train_skip
  have r: "results_now e gh u ((phases st)(K_train := Succeeded)) = (results_now e gh u (phases st))(K_train \<mapsto> Undefined)"
    by (auto simp: results_now_def fun_eq_iff split: key.splits)
  show ?thesis
    using start_train_skip(2,3) sane_parts[OF s]
    by (intro sane_update[OF s, where j = K_train and p = Succeeded])
       (simp_all add: start_train_skip(1) ready_def pc_ok_def agrees_def r)
next
  case (start_train_call R)
  show ?thesis
    using start_train_call(2,3) sane_parts[OF s]
    by (intro sane_update[OF s, where j = K_train and p = Awaiting_train])
       (simp_all add: start_train_call(1) ready_def pc_ok_def awaiting_def agrees_def results_now_same)
next
  case (repo_ok R)
  have r: "results_now e gh u ((phases st)(K_repo := Succeeded)) = (results_now e gh u (phases st))(K_repo \<mapsto> RepoVal R)"
    using repo_ok(3) by (auto simp: results_now_def fun_eq_iff split: key.splits)
  show ?thesis
    using repo_ok(2,3) sane_parts[OF s] awaiting_deps[OF s repo_ok(2)]
    by (intro sane_update[OF s, where j = K_repo and p = Succeeded])
       (simp_all add: repo_ok(1) pc_ok_def agrees_def r)
next
  case (repo_err err)
  have "fetched_repo e gh u = None" using repo_err(3) by (simp add: fetched_repo_def)
  then show ?thesis unfolding repo_err(1)
    using repo_err(2) by (intro sane_failed[OF s]) (simp_all add: awaiting_def agrees_def)
next
  case (issues_report n)
  show ?thesis
    using issues_report(2,3) sane_parts[OF s] awaiting_deps[OF s issues_report(2)]
    by (intro sane_update[OF s, where j = K_issues and p = "Awaiting_getIssues (Suc n)"])
       (simp_all add: issues_report(1) pc_ok_def awaiting_def agrees_def results_now_same)
next
  case (issues_ok I)
  from sane_ok[OF s, of K_records] issues_ok(2) have nr: "phases st K_records = NotStarted"
    by (auto simp: ok_def deps_done_def)
  have r: "results_now e gh u ((phases st)(K_issues := Succeeded)) = (results_now e gh u (phases st))(K_issues \<mapsto> IssuesVal I)"
    using issues_ok(3) nr by (auto simp: results_now_def fun_eq_iff is_attached_def split: key.splits)
  show ?thesis
    using issues_ok(2,3) sane_parts[OF s] awaiting_deps[OF s issues_ok(2)]
    by (intro sane_update[OF s, where j = K_issues and p = Succeeded])
       (simp_all add: issues_ok(1) pc_ok_def agrees_def r)
next
  case (issues_err err)
  have "fetched_issues e u = None" using issues_err(3) by (simp add: fetched_issues_def)
  then show ?thesis unfolding issues_err(1)
    using issues_err(2) by (intro sane_failed[OF s]) (simp_all add: awaiting_def agrees_def)
next
  case (upserted_ok R)
  show ?thesis
    using upserted_ok(2,3,4) sane_parts[OF s] awaiting_deps[OF s upserted_ok(2)]
    by (intro sane_update[OF s, where j = K_records and p = Awaiting_destroy])
       (simp_all add: upserted_ok(1) pc_ok_def awaiting_def agrees_def results_now_same is_attached_def db_now_def)
next
  case (upserted_err err)
  show ?thesis unfolding upserted_err(1)
    using upserted_err(2,3)
    by (intro sane_failed[OF s]) (simp_all add: awaiting_def agrees_def is_attached_def db_now_def)
next
  case (destroyed_ok R)
  from awaiting_deps[OF s destroyed_ok(2)] have pi: "phases st K_issues = Succeeded" by simp
  have r: "results_now e gh u ((phases st)(K_records := Awaiting_bulkCreate)) =
      (results_now e gh u (phases st))(K_issues \<mapsto> IssuesVal (attached_issues e gh u))"
    using pi destroyed_ok(2) by (auto simp: results_now_def fun_eq_iff is_attached_def split: key.splits)
  show ?thesis
    using destroyed_ok(2,3,4,5) sane_parts[OF s] awaiting_deps[OF s destroyed_ok(2)]
    by (intro sane_update[OF s, where j = K_records and p = Awaiting_bulkCreate])
       (simp_all add: destroyed_ok(1) pc_ok_def awaiting_def agrees_def r db_now_def)
next
  case (destroyed_err err)
  show ?thesis unfolding destroyed_err(1)
    using destroyed_err(2,3,4)
    by (intro sane_failed[OF s]) (simp_all add: awaiting_def agrees_def is_attached_def db_now_def)
next
  case created_ok
  have r: "results_now e gh u ((phases st)(K_records := Succeeded)) =
      (results_now e gh u (phases st))(K_records \<mapsto> IssuesVal (attached_issues e gh u))"
    using created_ok(2) by (auto simp: results_now_def fun_eq_iff is_attached_def split: key.splits)
  show ?thesis
    using created_ok(2,3,4,5) sane_parts[OF s] awaiting_deps[OF s created_ok(2)]
    by (intro sane_update[OF s, where j = K_records and p = Succeeded])
       (simp_all add: created_ok(1) pc_ok_def agrees_def r db_now_def)
next
  case (created_err err)
  show ?thesis unfolding created_err(1)
    using created_err(2,3,4,5)
    by (intro sane_failed[OF s]) (simp_all add: awaiting_def agrees_def is_attached_def db_now_def)
next
  case (webhooks_done R)
  have r: "results_now e gh u ((phases st)(K_webhooks := Succeeded)) = (results_now e gh u (phases st))(K_webhooks \<mapsto> Undefined)"
    by (auto simp: results_now_def fun_eq_iff split: key.splits)
  show ?thesis
    using webhooks_done(2) sane_parts[OF s] awaiting_deps[OF s webhooks_done(2)]
    by (intro sane_update[OF s, where j = K_webhooks and p = Succeeded])
       (simp_all add: webhooks_done(1) pc_ok_def agrees_def r)
next
  case (train_ok sm)
  have r: "results_now e gh u ((phases st)(K_train := Succeeded)) = (results_now e gh u (phases st))(K_train \<mapsto> Undefined)"
    by (auto simp: results_now_def fun_eq_iff split: key.splits)
  show ?thesis
    using train_ok(2,3) sane_parts[OF s] awaiting_deps[OF s train_ok(2)]
    by (intro sane_update[OF s, where j = K_train and p = Succeeded])
       (simp_all add: train_ok(1) pc_ok_def agrees_def r)
next
  case (train_err err)
  from sane_ok[OF s, of K_train] train_err(2) have "1 < length (attached_issues e gh u)"
    by (simp add: ok_def agrees_def)
  then show ?thesis unfolding train_err(1)
    using train_err(2,3) by (intro sane_failed[OF s]) (simp_all add: awaiting_def agrees_def)
next
  case finish
  show ?thesis using s by (simp add: finish(1) final_callback_eq sane_def)
qed

lemma sane_started: "sane e gh u d (started u d)"
proof -
  have "ok e gh u (\<lambda>k. NotStarted) k" for k
    by (cases k) (simp_all add: ok_def pc_ok_def deps_done_def agrees_def)
  then show ?thesis
    by (simp add: sane_def started_def emit_def initial_def results_now_def fun_eq_iff db_now_def)
qed

lemma preservedI:
  "(\<And>st st'. sane e gh u d st \<Longrightarrow> I st \<Longrightarrow> trans e gh u st st' \<Longrightarrow> I st') \<Longrightarrow> preserved e gh u d I"
  by (simp add: preserved_def)

lemma preservedD: "preserved e gh u d I \<Longrightarrow> sane e gh u d st \<Longrightarrow> I st \<Longrightarrow> trans e gh u st st' \<Longrightarrow> I st'"
  by (simp add: preserved_def)

lemma run_task_inv:
  assumes "sane e gh u d st \<and> I st"
    and pres: "preserved e gh u d I"
  shows "sane e gh u d (run_task u k st) \<and> I (run_task u k st)"
proof (cases "ready st k")
  case False
  then show ?thesis using assms(1) by (simp add: run_task_def)
next
  case True
  from assms(1) have s: "sane e gh u d st" and i: "I st" by simp_all
  from link_start[OF s True] have t: "trans e gh u st (run_task u k st)" using True by (simp add: run_task_def)
  from sane_trans[OF s t] preservedD[OF pres s i t] show ?thesis by simp
qed

lemma fold_run_task_inv:
  assumes "sane e gh u d st \<and> I st"
    and pres: "preserved e gh u d I"
  shows "sane e gh u d (fold (run_task u) ks st) \<and> I (fold (run_task u) ks st)"
  using assms(1)
proof (induction ks arbitrary: st)
  case Nil
  then show ?case by simp
next
  case (Cons k ks)
  from run_task_inv[where I = I, OF Cons.prems pres] have "sane e gh u d (run_task u k st) \<and> I (run_task u k st)" by blast
  from Cons.IH[OF this] show ?case by simp
qed

lemma process_queue_inv:
  assumes "sane e gh u d st \<and> I st"
    and pres: "preserved e gh u d I"
  shows "sane e gh u d (process_queue u st) \<and> I (process_queue u st)"
proof -
  let ?s = "fold (run_task u) all_keys st"
  from fold_run_task_inv[where I = I, OF assms(1) pres] have f: "sane e gh u d ?s" "I ?s" by blast+
  show ?thesis
  proof (cases "in_flight ?s = [] \<and> \<not> uncaught ?s")
    case False
    then show ?thesis using f by (auto simp: process_queue_def Let_def)
  next
    case True
    then have t: "trans e gh u ?s (final_callback u None (results ?s) ?s)"
      by (auto intro: trans.finish simp: none_ready_after_queue)
    from sane_trans[OF f(1) t] preservedD[OF pres f t] True show ?thesis by (simp add: process_queue_def Let_def)
  qed
qed

lemma step_eq:
  "step e gh u k st =
     (case snd (resume e gh u k st) of
        Some (Inr v) \<Rightarrow> process_queue u (settle u k (resume e gh u k st))
      | _ \<Rightarrow> settle u k (resume e gh u k st))"
  by (cases "resume e gh u k st") (auto simp: step_def settle_def split: option.splits sum.splits)

lemma step_inv:
  assumes "sane e gh u d st \<and> I st" and k: "k \<in> set (in_flight st)"
    and pres: "preserved e gh u d I"
  shows "sane e gh u d (step e gh u k st) \<and> I (step e gh u k st)"
proof -
  from assms(1) have s: "sane e gh u d st" and i: "I st" by simp_all
  let ?s = "settle u k (resume e gh u k st)"
  from link_resume[OF s k] have t: "trans e gh u st ?s" .
  from sane_trans[OF s t] preservedD[OF pres s i t] have a: "sane e gh u d ?s \<and> I ?s" by simp
  from process_queue_inv[where I = I, OF a pres] have b: "sane e gh u d (process_queue u ?s) \<and> I (process_queue u ?s)" by blast
  show ?thesis using a b by (simp add: step_eq split: option.splits sum.splits)
qed

lemma run_inv:
  assumes "sane e gh u d st \<and> I st"
    and pres: "preserved e gh u d I"
  shows "sane e gh u d (run e gh u sched st) \<and> I (run e gh u sched st)"
  using assms
proof (induction e gh u sched st rule: run.induct)
  case (1 e gh u sched st)
  note si = "1.prems"(1) and pr = "1.prems"(2)
  show ?case
  proof (cases "in_flight st")
    case Nil
    then show ?thesis using si by (subst run.simps, subst (2) run.simps) simp
  next
    case (Cons k0 ks0)
    then have k0: "k0 \<in> set (in_flight st)" by simp
    show ?thesis
    proof (cases sched)
      case Nil
      from step_inv[where I = I, OF si k0 pr] have "sane e gh u d (step e gh u k0 st) \<and> I (step e gh u k0 st)" by blast
      from "1.IH"(1)[OF Cons Nil this pr] show ?thesis
        using Cons Nil by (subst run.simps, subst (2) run.simps) simp
    next
      case (Cons k ks)
      note sc = Cons
      show ?thesis
      proof (cases "k \<in> set (in_flight st)")
        case True
        from step_inv[where I = I, OF si True pr] have "sane e gh u d (step e gh u k st) \<and> I (step e gh u k st)" by blast
        from "1.IH"(2)[OF \<open>in_flight st = k0 # ks0\<close> sc True this pr] show ?thesis
          using \<open>in_flight st = k0 # ks0\<close> sc True by (subst run.simps, subst (2) run.simps) simp
      next
        case False
        from "1.IH"(3)[OF \<open>in_flight st = k0 # ks0\<close> sc False si pr] show ?thesis
          using \<open>in_flight st = k0 # ks0\<close> sc False by (subst run.simps, subst (2) run.simps) simp
      qed
    qed
  qed
qed

lemma run_done: "in_flight (run e gh u sched st) = []"
proof (induction e gh u sched st rule: run.induct)
  case (1 e gh u sched st)
  show ?case
  proof (cases "in_flight st")
    case Nil
    then show ?thesis by (subst run.simps) simp
  next
    case (Cons k0 ks0)
    show ?thesis
    proof (cases sched)
      case Nil
      from "1.IH"(1)[OF Cons Nil] show ?thesis using Cons Nil by (subst run.simps) simp
    next
      case (Cons k ks)
      note sc = Cons
      show ?thesis
      proof (cases "k \<in> set (in_flight st)")
        case True
        from "1.IH"(2)[OF \<open>in_flight st = k0 # ks0\<close> sc True] show ?thesis
          using \<open>in_flight st = k0 # ks0\<close> sc True by (subst run.simps) simp
      next
        case False
        from "1.IH"(3)[OF \<open>in_flight st = k0 # ks0\<close> sc False] show ?thesis
          using \<open>in_flight st = k0 # ks0\<close> sc False by (subst run.simps) simp
      qed
    qed
  qed
qed

lemma sync_eq:
  "socket_github e = Some gh \<Longrightarrow> parseGitHubUrl e url = Some u \<Longrightarrow> url_name u \<noteq> [] \<Longrightarrow>
   REPOSITORY_SYNC e sched url d = run e gh u sched (process_queue u (started u d))"
  by (simp add: REPOSITORY_SYNC_def started_def)

lemma sync_inv:
  assumes v: "socket_github e = Some gh" "parseGitHubUrl e url = Some u" "url_name u \<noteq> []"
    and init: "I (started u d)"
    and pres: "preserved e gh u d I"
  shows "sane e gh u d (REPOSITORY_SYNC e sched url d) \<and> I (REPOSITORY_SYNC e sched url d)"
proof -
  have "sane e gh u d (started u d) \<and> I (started u d)" using sane_started init by simp
  from process_queue_inv[where I = I, OF this pres]
  have "sane e gh u d (process_queue u (started u d)) \<and> I (process_queue u (started u d))" by blast
  from run_inv[where I = I, OF this pres] show ?thesis unfolding sync_eq[OF v] by blast
qed

lemma sync_done:
  "socket_github e = Some gh \<Longrightarrow> parseGitHubUrl e url = Some u \<Longrightarrow> url_name u \<noteq> [] \<Longrightarrow>
   in_flight (REPOSITORY_SYNC e sched url d) = []"
  by (simp add: sync_eq run_done)

section \<open>The events of each task follow its script\<close>

lemma events_of_append [simp]: "events_of k (xs @ ys) = events_of k xs @ events_of k ys"
  by (simp add: events_of_def)

lemma events_of_owned:
  "\<forall>ev\<in>set es. event_key ev = Some j \<or> event_key ev = None \<Longrightarrow> k \<noteq> j \<Longrightarrow> events_of k es = []"
  by (auto simp: events_of_def filter_empty_conv)

lemma scripted_update:
  assumes "scripted e gh u st" "phases st' = (phases st)(j := p)" "trace st' = trace st @ es"
    and own: "\<forall>ev\<in>set es. event_key ev = Some j \<or> event_key ev = None"
    and sc: "script e gh u j p = script e gh u j (phases st j) @ events_of j es"
  shows "scripted e gh u st'"
  unfolding scripted_def
proof
  fix k
  show "events_of k (trace st') = script e gh u k (phases st' k)"
  proof (cases "k = j")
    case True
    then show ?thesis using assms(1,2,3) sc by (simp add: scripted_def)
  next
    case False
    then show ?thesis using assms(1,2,3) events_of_owned[OF own False] by (simp add: scripted_def)
  qed
qed

lemmas ev_defs = events_of_def event_key_def task_key_def caller_def

lemma scripted_failed:
  assumes "scripted e gh u st"
    and sc: "script e gh u j Failed = script e gh u j (phases st j) @ [Task_failed j err]"
  shows "scripted e gh u (task_failed u j err st)"
  by (rule scripted_update[OF assms(1), where j = j and p = Failed
        and es = "Task_failed j err # (if delivered st = None then [Leave (repoRoom u)] else [])"])
     (simp_all add: task_failed_eq sc ev_defs)

lemma scripted_trans:
  assumes s: "sane e gh u d st" and i: "scripted e gh u st" and t: "trans e gh u st st'"
  shows "scripted e gh u st'"
  using t
proof (cases rule: trans.cases)
  case start_repo
  show ?thesis
    using start_repo(2)
    by (intro scripted_update[OF i, where j = K_repo and p = Awaiting_get
          and es = "[Invoke K_repo, P REPO 0 None, Call (Repos_get (url_owner u) (url_name u))]"])
       (simp_all add: Let_def start_repo(1) ready_def ev_defs script_def repo_script_def)
next
  case start_issues
  show ?thesis
    using start_issues(2)
    by (intro scripted_update[OF i, where j = K_issues and p = "Awaiting_getIssues 0"
          and es = "[Invoke K_issues, Call (GetIssues (url_owner u) (url_name u))]"])
       (simp_all add: Let_def start_issues(1) ready_def ev_defs script_def issues_script_def)
next
  case (start_records R)
  show ?thesis
    using start_records(2,3)
    by (intro scripted_update[OF i, where j = K_records and p = Awaiting_upsert
          and es = "[Invoke K_records, P DATABASE 0 None, Call (Upsert R)]"])
       (simp_all add: Let_def start_records(1) ready_def ev_defs script_def records_script_def)
next
  case (start_webhooks R)
  show ?thesis
    using start_webhooks(2,3)
    by (intro scripted_update[OF i, where j = K_webhooks and p = Awaiting_createHook
          and es = "[Invoke K_webhooks, P WEBHOOK 0 None, Call (CreateHook (owner R) (name R))]"])
       (simp_all add: Let_def start_webhooks(1) ready_def ev_defs script_def webhooks_script_def)
next
  case start_train_skip
  show ?thesis
    using start_train_skip(2,3)
    by (intro scripted_update[OF i, where j = K_train and p = Succeeded
          and es = "[Invoke K_train, P TRAIN 0 None, P TRAIN 1 None, Task_ok K_train]"])
       (simp_all add: Let_def start_train_skip(1) ready_def ev_defs script_def train_script_def)
next
  case (start_train_call R)
  show ?thesis
    using start_train_call(2,3,4)
    by (intro scripted_update[OF i, where j = K_train and p = Awaiting_train
          and es = "[Invoke K_train, P TRAIN 0 None, Call (Train (owner R) (name R) (attached_issues e gh u) [])]"])
       (simp_all add: Let_def start_train_call(1) ready_def ev_defs script_def train_script_def)
next
  case (repo_ok R)
  show ?thesis
    using repo_ok(2,3)
    by (intro scripted_update[OF i, where j = K_repo and p = Succeeded
          and es = "[P REPO 1 None, Task_ok K_repo]"])
       (simp_all add: Let_def repo_ok(1) ev_defs script_def repo_script_def)
next
  case (repo_err err)
  show ?thesis unfolding repo_err(1)
    using repo_err(2,3) by (intro scripted_failed[OF i]) (simp add: Let_def script_def repo_script_def)
next
  case (issues_report n)
  show ?thesis
    using issues_report(2,3)
    by (intro scripted_update[OF i, where j = K_issues and p = "Awaiting_getIssues (Suc n)"
          and es = "[P ISSUES (fst (getIssues e (url_owner u) (url_name u)) ! n) None]"])
       (simp_all add: Let_def issues_report(1) ev_defs script_def issues_script_def reports_def take_Suc_conv_app_nth)
next
  case (issues_ok I)
  show ?thesis
    using issues_ok(2,3)
    by (intro scripted_update[OF i, where j = K_issues and p = Succeeded
          and es = "[P ISSUES 1 None, Task_ok K_issues]"])
       (simp_all add: Let_def issues_ok(1) ev_defs script_def issues_script_def reports_def)
next
  case (issues_err err)
  show ?thesis unfolding issues_err(1)
    using issues_err(2,3) by (intro scripted_failed[OF i]) (simp add: Let_def script_def issues_script_def reports_def)
next
  case (upserted_ok R)
  show ?thesis
    using upserted_ok(2,3,4)
    by (intro scripted_update[OF i, where j = K_records and p = Awaiting_destroy
          and es = "[P DATABASE (1/2) None, Call (Destroy (repo_id R))]"])
       (simp_all add: Let_def upserted_ok(1) ev_defs script_def records_script_def)
next
  case (upserted_err err)
  show ?thesis unfolding upserted_err(1)
    using upserted_err(2,3) by (intro scripted_failed[OF i]) (simp add: Let_def script_def records_script_def)
next
  case (destroyed_ok R)
  show ?thesis
    using destroyed_ok(2,3,4,5)
    by (intro scripted_update[OF i, where j = K_records and p = Awaiting_bulkCreate
          and es = "[P DATABASE (3/5) None, Call (BulkCreate (attached_issues e gh u))]"])
       (simp_all add: Let_def destroyed_ok(1) ev_defs script_def records_script_def)
next
  case (destroyed_err err)
  show ?thesis unfolding destroyed_err(1)
    using destroyed_err(2,3,4) by (intro scripted_failed[OF i]) (simp add: Let_def script_def records_script_def)
next
  case created_ok
  show ?thesis
    using created_ok(2,3,4,5)
    by (intro scripted_update[OF i, where j = K_records and p = Succeeded
          and es = "[P DATABASE 1 None, Task_ok K_records]"])
       (simp_all add: Let_def created_ok(1) ev_defs script_def records_script_def)
next
  case (created_err err)
  show ?thesis unfolding created_err(1)
    using created_err(2,3,4,5) by (intro scripted_failed[OF i]) (simp add: Let_def script_def records_script_def)
next
  case (webhooks_done R)
  show ?thesis
    using webhooks_done(2,3)
    by (intro scripted_update[OF i, where j = K_webhooks and p = Succeeded
          and es = "[P WEBHOOK 1 (err_and_message (createHook gh (owner R) (name R))), Task_ok K_webhooks]"])
       (simp_all add: Let_def webhooks_done(1) ev_defs script_def webhooks_script_def)
next
  case (train_ok sm)
  from sane_ok[OF s, of K_train] train_ok(2) have m: "1 < length (attached_issues e gh u)"
    by (simp add: ok_def agrees_def)
  show ?thesis
    using train_ok(2,3) m
    by (intro scripted_update[OF i, where j = K_train and p = Succeeded
          and es = "[P TRAIN 1 None, Task_ok K_train]"])
       (simp_all add: Let_def train_ok(1) ev_defs script_def train_script_def)
next
  case (train_err err)
  from sane_ok[OF s, of K_train] train_err(2) have m: "1 < length (attached_issues e gh u)"
    by (simp add: ok_def agrees_def)
  show ?thesis unfolding train_err(1)
    using train_err(2,3) m by (intro scripted_failed[OF i]) (simp add: Let_def script_def train_script_def)
next
  case finish
  show ?thesis using i by (simp add: finish(1) final_callback_eq scripted_def ev_defs)
qed

lemma progress_of_events: "progress_of t (events_of (task_key t) tr) = progress_of t tr"
  by (induction tr) (auto simp: progress_of_def events_of_def event_key_def split: event.splits)

lemma calls_of_events: "calls_of k (events_of k tr) = calls_of k tr"
  by (induction tr) (auto simp: calls_of_def events_of_def event_key_def split: event.splits)

lemma scripted_started: "scripted e gh u (started u d)"
proof -
  have "script e gh u k NotStarted = []" for k
    by (cases k) (simp_all add: script_def repo_script_def issues_script_def records_script_def
        webhooks_script_def train_script_def Let_def)
  then show ?thesis
    by (simp add: scripted_def started_def emit_def initial_def ev_defs)
qed

lemma sync_final:
  assumes "socket_github e = Some gh" "parseGitHubUrl e url = Some u" "url_name u \<noteq> []"
  shows "sane e gh u d (REPOSITORY_SYNC e sched url d)"
    and "scripted e gh u (REPOSITORY_SYNC e sched url d)"
    and "in_flight (REPOSITORY_SYNC e sched url d) = []"
proof -
  have "preserved e gh u d (scripted e gh u)"
    by (rule preservedI) (rule scripted_trans)
  from sync_inv[where I = "scripted e gh u", OF assms scripted_started this]
  show "sane e gh u d (REPOSITORY_SYNC e sched url d)" "scripted e gh u (REPOSITORY_SYNC e sched url d)"
    by blast+
  show "in_flight (REPOSITORY_SYNC e sched url d) = []" by (rule sync_done[OF assms])
qed

lemma final_pc:
  assumes "sane e gh u d st" "in_flight st = []"
  shows "phases st k = NotStarted \<or> phases st k = Succeeded \<or> phases st k = Failed"
proof -
  from assms(1) have nu: "\<not> uncaught st" and pk: "pc_ok k (phases st k)" by (simp_all add: sane_def ok_def)
  have "k \<in> set all_keys" by (rule all_keys_complete)
  with assms(2) nu have "\<not> awaiting k (phases st k)" by (auto simp: in_flight_def filter_empty_conv)
  with pk show ?thesis by (auto simp: pc_ok_def)
qed

lemma script_of: "scripted e gh u st \<Longrightarrow> events_of k (trace st) = script e gh u k (phases st k)"
  by (simp add: scripted_def)

lemma script_NotStarted: "script e gh u k NotStarted = []"
  by (cases k) (simp_all add: script_def repo_script_def issues_script_def records_script_def
      webhooks_script_def train_script_def Let_def)

lemma invoked_started:
  assumes "scripted e gh u st" "Invoke k \<in> set (trace st)"
  shows "phases st k \<noteq> NotStarted"
proof
  assume "phases st k = NotStarted"
  with script_of[OF assms(1), of k] have "events_of k (trace st) = []" by (simp add: script_NotStarted)
  moreover have "Invoke k \<in> set (events_of k (trace st))" using assms(2) by (simp add: events_of_def event_key_def)
  ultimately show False by simp
qed

section \<open>Progress of the webhooks task\<close>

lemma fetched_repo_Some:
  "fetched_repo e gh u = Some R \<Longrightarrow>
   \<exists>r. repos_get gh (url_owner u) (url_name u) = Inr r \<and> R = (transformFields r)\<lparr>token := socket_token e\<rparr>"
  by (auto simp: fetched_repo_def split: sum.splits)

lemma fetched_issues_Some:
  "fetched_issues e u = Some I \<Longrightarrow>
   \<exists>found. snd (getIssues e (url_owner u) (url_name u)) = Inr found \<and> I = map (Issue_transformFields e) found"
  by (auto simp: fetched_issues_def split: sum.splits)

lemma webhooks_events:
  assumes "socket_github e = Some gh" "parseGitHubUrl e url = Some u" "url_name u \<noteq> []"
    and "Invoke K_webhooks \<in> set (trace (REPOSITORY_SYNC e sched url d))"
  shows "\<exists>r. repos_get gh (url_owner u) (url_name u) = Inr r \<and>
           events_of K_webhooks (trace (REPOSITORY_SYNC e sched url d)) =
             [Invoke K_webhooks, P WEBHOOK 0 None,
              Call (CreateHook (gh_owner_login r) (gh_name r)),
              P WEBHOOK 1 (err_and_message (createHook gh (gh_owner_login r) (gh_name r))),
              Task_ok K_webhooks]"
proof -
  let ?S = "REPOSITORY_SYNC e sched url d"
  note f = sync_final[OF assms(1,2,3), where d = d and sched = sched]
  from invoked_started[OF f(2) assms(4)] have ns: "phases ?S K_webhooks \<noteq> NotStarted" .
  from sane_ok[OF f(1), of K_webhooks] have "phases ?S K_webhooks \<noteq> Failed" by (simp add: ok_def agrees_def)
  with final_pc[OF f(1,3), of K_webhooks] ns have su: "phases ?S K_webhooks = Succeeded" by simp
  from sane_deps[OF f(1) ns, of K_repo] have "phases ?S K_repo = Succeeded" by simp
  from sane_repo[OF f(1) this] obtain R where R: "fetched_repo e gh u = Some R" by blast
  from fetched_repo_Some[OF R] obtain r where r: "repos_get gh (url_owner u) (url_name u) = Inr r"
    "R = (transformFields r)\<lparr>token := socket_token e\<rparr>" by blast
  have ev: "events_of K_webhooks (trace ?S) =
      [Invoke K_webhooks, P WEBHOOK 0 None, Call (CreateHook (gh_owner_login r) (gh_name r)),
       P WEBHOOK 1 (err_and_message (createHook gh (gh_owner_login r) (gh_name r))),
       Task_ok K_webhooks]"
    using script_of[OF f(2), of K_webhooks] su R r(2)
    by (simp add: script_def webhooks_script_def transformFields_def)
  from r(1) ev show ?thesis by blast
qed

lemma webhooks_silent:
  assumes "socket_github e = Some gh" "parseGitHubUrl e url = Some u" "url_name u \<noteq> []"
    and "Invoke K_webhooks \<notin> set (trace (REPOSITORY_SYNC e sched url d))"
  shows "events_of K_webhooks (trace (REPOSITORY_SYNC e sched url d)) = []"
proof -
  let ?S = "REPOSITORY_SYNC e sched url d"
  note f = sync_final[OF assms(1,2,3), where d = d and sched = sched]
  from sane_ok[OF f(1), of K_webhooks] have nf: "phases ?S K_webhooks \<noteq> Failed"
    by (simp add: ok_def agrees_def)
  have ns: "phases ?S K_webhooks \<noteq> Succeeded"
  proof
    assume su: "phases ?S K_webhooks = Succeeded"
    have "Invoke K_webhooks \<in> set (script e gh u K_webhooks Succeeded)"
      by (simp add: script_def webhooks_script_def Let_def)
    with script_of[OF f(2), of K_webhooks] su
    have "Invoke K_webhooks \<in> set (events_of K_webhooks (trace ?S))" by simp
    then have "Invoke K_webhooks \<in> set (trace ?S)" by (simp add: events_of_def)
    with assms(4) show False by simp
  qed
  from final_pc[OF f(1,3), of K_webhooks] nf ns have "phases ?S K_webhooks = NotStarted" by simp
  with script_of[OF f(2), of K_webhooks] show ?thesis by (simp add: script_NotStarted)
qed

text \<open>
  Claim C10, as amended. In every run in which the body of the webhooks task is invoked,
  the task does exactly this, in this order: it emits percent 0, calls the registrar for
  the fetched repository, emits percent 1 and calls back without an error. The second
  event is emitted whether or not the registration failed; its message is the registrar's
  error message when it failed and is unset when it succeeded. A run in which the body is
  never invoked has no event of the task, so it emits no progress event for the stage.
\<close>

theorem webhook_progress_zero_then_one:
  assumes "socket_github e = Some gh" "parseGitHubUrl e url = Some u" "url_name u \<noteq> []"
  shows "(Invoke K_webhooks \<in> set (trace (REPOSITORY_SYNC e sched url d)) \<longrightarrow>
          (\<exists>r. repos_get gh (url_owner u) (url_name u) = Inr r \<and>
             events_of K_webhooks (trace (REPOSITORY_SYNC e sched url d)) =
               [Invoke K_webhooks, P WEBHOOK 0 None,
                Call (CreateHook (gh_owner_login r) (gh_name r)),
                P WEBHOOK 1 (case createHook gh (gh_owner_login r) (gh_name r) of
                               None \<Rightarrow> None | Some err \<Rightarrow> err_message err),
                Task_ok K_webhooks] \<and>
             progress_of WEBHOOK (trace (REPOSITORY_SYNC e sched url d)) =
               [\<lparr>task = WEBHOOK, percent = 0, message = None\<rparr>,
                \<lparr>task = WEBHOOK, percent = 1,
                 message = (case createHook gh (gh_owner_login r) (gh_name r) of
                              None \<Rightarrow> None | Some err \<Rightarrow> err_message err)\<rparr>])) \<and>
         (Invoke K_webhooks \<notin> set (trace (REPOSITORY_SYNC e sched url d)) \<longrightarrow>
            events_of K_webhooks (trace (REPOSITORY_SYNC e sched url d)) = [] \<and>
            progress_of WEBHOOK (trace (REPOSITORY_SYNC e sched url d)) = [])"
proof -
  let ?S = "REPOSITORY_SYNC e sched url d"
  have pe: "progress_of WEBHOOK (trace ?S) = progress_of WEBHOOK (events_of K_webhooks (trace ?S))"
    using progress_of_events[of WEBHOOK "trace ?S"] by (simp add: task_key_def)
  have a: "\<exists>r. repos_get gh (url_owner u) (url_name u) = Inr r \<and>
      events_of K_webhooks (trace ?S) =
        [Invoke K_webhooks, P WEBHOOK 0 None, Call (CreateHook (gh_owner_login r) (gh_name r)),
         P WEBHOOK 1 (case createHook gh (gh_owner_login r) (gh_name r) of
                        None \<Rightarrow> None | Some err \<Rightarrow> err_message err),
         Task_ok K_webhooks] \<and>
      progress_of WEBHOOK (trace ?S) =
        [\<lparr>task = WEBHOOK, percent = 0, message = None\<rparr>,
         \<lparr>task = WEBHOOK, percent = 1,
          message = (case createHook gh (gh_owner_login r) (gh_name r) of
                       None \<Rightarrow> None | Some err \<Rightarrow> err_message err)\<rparr>]"
    if inv: "Invoke K_webhooks \<in> set (trace ?S)"
  proof -
    from webhooks_events[OF assms inv] obtain r where r: "repos_get gh (url_owner u) (url_name u) = Inr r"
      and ev: "events_of K_webhooks (trace ?S) =
        [Invoke K_webhooks, P WEBHOOK 0 None, Call (CreateHook (gh_owner_login r) (gh_name r)),
         P WEBHOOK 1 (case createHook gh (gh_owner_login r) (gh_name r) of
                        None \<Rightarrow> None | Some err \<Rightarrow> err_message err),
         Task_ok K_webhooks]"
      unfolding err_and_message_def by blast
    have pg: "progress_of WEBHOOK (trace ?S) =
        [\<lparr>task = WEBHOOK, percent = 0, message = None\<rparr>,
         \<lparr>task = WEBHOOK, percent = 1,
          message = (case createHook gh (gh_owner_login r) (gh_name r) of
                       None \<Rightarrow> None | Some err \<Rightarrow> err_message err)\<rparr>]"
      unfolding pe ev by (simp add: progress_of_def)
    from r ev pg show ?thesis by blast
  qed
  have b: "events_of K_webhooks (trace ?S) = [] \<and> progress_of WEBHOOK (trace ?S) = []"
    if ni: "Invoke K_webhooks \<notin> set (trace ?S)"
  proof -
    from webhooks_silent[OF assms ni] have e0: "events_of K_webhooks (trace ?S) = []" .
    have "progress_of WEBHOOK (trace ?S) = []" unfolding pe e0 by (simp add: progress_of_def)
    with e0 show ?thesis by simp
  qed
  from a b show ?thesis by blast
qed

lemma parse_acme: "parse_github_url acme_url =
    Some \<lparr>url_owner = ''acme'', url_name = ''widgets'', url_repo = ''acme/widgets''\<rparr>"
  unfolding acme_url_def by code_simp

theorem webhook_progress_zero_then_one_witness:
  "Invoke K_webhooks \<in> set (trace (REPOSITORY_SYNC (demo_env (Some hook_refused) [] [1, 2, 3]) [] acme_url empty_db)) \<and>
   createHook (demo_api (Some hook_refused)) ''acme'' ''widgets'' = Some hook_refused \<and>
   progress_of WEBHOOK (trace (REPOSITORY_SYNC (demo_env (Some hook_refused) [] [1, 2, 3]) [] acme_url empty_db)) =
     [\<lparr>task = WEBHOOK, percent = 0, message = None\<rparr>,
      \<lparr>task = WEBHOOK, percent = 1, message = Some ''Validation Failed''\<rparr>] \<and>
   Invoke K_webhooks \<notin> set (trace (REPOSITORY_SYNC no_repo_env [K_issues] acme_url empty_db)) \<and>
   events_of K_webhooks (trace (REPOSITORY_SYNC no_repo_env [K_issues] acme_url empty_db)) = []"
proof -
  let ?u = "\<lparr>url_owner = ''acme'', url_name = ''widgets'', url_repo = ''acme/widgets''\<rparr>"
  let ?S = "REPOSITORY_SYNC (demo_env (Some hook_refused) [] [1, 2, 3]) [] acme_url empty_db"
  let ?N = "REPOSITORY_SYNC no_repo_env [K_issues] acme_url empty_db"
  have h1: "socket_github (demo_env (Some hook_refused) [] [1, 2, 3]) = Some (demo_api (Some hook_refused))"
    by (simp add: demo_env_def)
  have h2: "parseGitHubUrl (demo_env (Some hook_refused) [] [1, 2, 3]) acme_url = Some ?u"
    by (simp add: demo_env_def parse_acme)
  have h3: "url_name ?u \<noteq> []"
    by simp
  have h4: "Invoke K_webhooks \<in> set (trace ?S)"
    by code_simp
  have n1: "socket_github no_repo_env = Some \<lparr>repos_get = repo_unreachable, createHook = hook_answers None\<rparr>"
    by (simp add: no_repo_env_def)
  have n2: "parseGitHubUrl no_repo_env acme_url = Some ?u"
    by (simp add: no_repo_env_def demo_env_def parse_acme)
  have n4: "Invoke K_webhooks \<notin> set (trace ?N)"
    by code_simp
  from webhook_progress_zero_then_one[OF h1 h2 h3, where sched = "[]" and d = empty_db] h4
  have "\<exists>r. repos_get (demo_api (Some hook_refused)) (url_owner ?u) (url_name ?u) = Inr r \<and>
      progress_of WEBHOOK (trace ?S) =
        [\<lparr>task = WEBHOOK, percent = 0, message = None\<rparr>,
         \<lparr>task = WEBHOOK, percent = 1,
          message = (case createHook (demo_api (Some hook_refused)) (gh_owner_login r) (gh_name r) of
                       None \<Rightarrow> None | Some err \<Rightarrow> err_message err)\<rparr>]"
    by blast
  then have a: "progress_of WEBHOOK (trace ?S) =
      [\<lparr>task = WEBHOOK, percent = 0, message = None\<rparr>,
       \<lparr>task = WEBHOOK, percent = 1, message = Some ''Validation Failed''\<rparr>]"
    by (auto simp: demo_api_def always_acme_def acme_def hook_answers_def hook_refused_def)
  from webhook_progress_zero_then_one[OF n1 n2 h3, where sched = "[K_issues]" and d = empty_db] n4
  have b: "events_of K_webhooks (trace ?N) = []" by blast
  have c: "createHook (demo_api (Some hook_refused)) ''acme'' ''widgets'' = Some hook_refused"
    by (simp add: demo_api_def hook_answers_def)
  show ?thesis by (rule conjI[OF h4 conjI[OF c conjI[OF a conjI[OF n4 b]]]])
qed

text \<open>The claim as written speaks of every run. When the repository cannot be fetched
  the webhooks task is never launched and the stage emits nothing.\<close>

theorem webhook_never_launched_counterexample:
  "socket_github no_repo_env \<noteq> None \<and>
   parseGitHubUrl no_repo_env acme_url =
     Some \<lparr>url_owner = ''acme'', url_name = ''widgets'', url_repo = ''acme/widgets''\<rparr> \<and>
   progress_of WEBHOOK (trace (REPOSITORY_SYNC no_repo_env [] acme_url empty_db)) = []"
proof -
  have "progress_of WEBHOOK (trace (REPOSITORY_SYNC no_repo_env [] acme_url empty_db)) = []"
    by code_simp
  then show ?thesis by (simp add: no_repo_env_def demo_env_def parse_acme)
qed

section \<open>The training threshold\<close>

lemma attached_issues_eq:
  assumes "repos_get gh (url_owner u) (url_name u) = Inr r"
    and "snd (getIssues e (url_owner u) (url_name u)) = Inr found"
  shows "attached_issues e gh u = map (attach (gh_id r) \<circ> Issue_transformFields e) found"
  using assms by (simp add: attached_issues_def fetched_repo_def fetched_issues_def transformFields_def)

text \<open>
  Claim C3, as amended. In every run in which the body of the train task is invoked:
  when at most one issue was fetched, the task emits percent 0 and percent 1, calls back
  without an error and never calls the classifier; when two or more were fetched, it calls
  the classifier exactly once, with the owner and name of the fetched repository, the
  fetched issues as the records task left them (each carrying the repository's id), and
  no ignored labels.
\<close>

theorem train_skips_below_two_issues:
  assumes "socket_github e = Some gh" "parseGitHubUrl e url = Some u" "url_name u \<noteq> []"
    and "Invoke K_train \<in> set (trace (REPOSITORY_SYNC e sched url d))"
  shows "\<exists>r found.
           repos_get gh (url_owner u) (url_name u) = Inr r \<and>
           snd (getIssues e (url_owner u) (url_name u)) = Inr found \<and>
           (length found \<le> 1 \<longrightarrow>
              calls_of K_train (trace (REPOSITORY_SYNC e sched url d)) = [] \<and>
              percents_of TRAIN (trace (REPOSITORY_SYNC e sched url d)) = [0, 1] \<and>
              Task_ok K_train \<in> set (trace (REPOSITORY_SYNC e sched url d))) \<and>
           (1 < length found \<longrightarrow>
              calls_of K_train (trace (REPOSITORY_SYNC e sched url d)) =
                [Train (gh_owner_login r) (gh_name r)
                   (map (attach (gh_id r) \<circ> Issue_transformFields e) found) []])"
proof -
  let ?S = "REPOSITORY_SYNC e sched url d"
  note f = sync_final[OF assms(1,2,3), where d = d and sched = sched]
  from invoked_started[OF f(2) assms(4)] have ns: "phases ?S K_train \<noteq> NotStarted" .
  from sane_deps[OF f(1) ns, of K_repo] have pr: "phases ?S K_repo = Succeeded" by simp
  from sane_deps[OF f(1) ns, of K_records] have pd: "phases ?S K_records = Succeeded" by simp
  from sane_deps[OF f(1), of K_records K_issues] pd have pi: "phases ?S K_issues = Succeeded" by simp
  from sane_repo[OF f(1) pr] obtain R where R: "fetched_repo e gh u = Some R" by blast
  from fetched_repo_Some[OF R] obtain r where r: "repos_get gh (url_owner u) (url_name u) = Inr r"
    "R = (transformFields r)\<lparr>token := socket_token e\<rparr>" by blast
  from sane_issues[OF f(1) pi] obtain I where I: "fetched_issues e u = Some I" by blast
  from fetched_issues_Some[OF I] obtain found where
    fo: "snd (getIssues e (url_owner u) (url_name u)) = Inr found" by blast
  note att = attached_issues_eq[OF r(1) fo]
  have len: "length (attached_issues e gh u) = length found" by (simp add: att)
  have ev: "events_of K_train (trace ?S) = train_script e gh u (phases ?S K_train)"
    using script_of[OF f(2), of K_train] by (simp add: script_def)
  have c: "calls_of K_train (trace ?S) = calls_of K_train (train_script e gh u (phases ?S K_train))"
    using calls_of_events[of K_train "trace ?S"] ev by simp
  have p: "percents_of TRAIN (trace ?S) = percents_of TRAIN (train_script e gh u (phases ?S K_train))"
    using progress_of_events[of TRAIN "trace ?S"] ev by (simp add: percents_of_def task_key_def)
  have small: "calls_of K_train (trace ?S) = [] \<and> percents_of TRAIN (trace ?S) = [0, 1] \<and>
      Task_ok K_train \<in> set (trace ?S)" if le: "length found \<le> 1"
  proof -
    from sane_ok[OF f(1), of K_train] le len have "phases ?S K_train \<noteq> Failed"
      by (auto simp: ok_def agrees_def)
    with final_pc[OF f(1,3), of K_train] ns have su: "phases ?S K_train = Succeeded" by simp
    have "Task_ok K_train \<in> set (events_of K_train (trace ?S))"
      using ev su le len by (simp add: train_script_def)
    then have "Task_ok K_train \<in> set (trace ?S)" by (simp add: events_of_def)
    moreover have "calls_of K_train (trace ?S) = []"
      using c su le len by (simp add: train_script_def calls_of_def)
    moreover have "percents_of TRAIN (trace ?S) = [0, 1]"
      using p su le len by (simp add: train_script_def percents_of_def progress_of_def)
    ultimately show ?thesis by simp
  qed
  have big: "calls_of K_train (trace ?S) =
      [Train (gh_owner_login r) (gh_name r) (map (attach (gh_id r) \<circ> Issue_transformFields e) found) []]"
    if gt: "1 < length found"
  proof -
    from final_pc[OF f(1,3), of K_train] ns
    have "phases ?S K_train = Succeeded \<or> phases ?S K_train = Failed" by simp
    then show ?thesis
      using c gt len R r(2) att
      by (auto simp: train_script_def calls_of_def caller_def transformFields_def)
  qed
  from r(1) fo small big show ?thesis by blast
qed

lemma demo_valid:
  "socket_github (demo_env hook ps ns) = Some (demo_api hook)"
  "parseGitHubUrl (demo_env hook ps ns) acme_url =
     Some \<lparr>url_owner = ''acme'', url_name = ''widgets'', url_repo = ''acme/widgets''\<rparr>"
  "url_name \<lparr>url_owner = ''acme'', url_name = ''widgets'', url_repo = ''acme/widgets''\<rparr> \<noteq> []"
  by (simp_all add: demo_env_def parse_acme)

theorem train_skips_below_two_issues_witness:
  "Invoke K_train \<in> set (trace (REPOSITORY_SYNC (demo_env None [] [1, 2, 3]) [] acme_url empty_db)) \<and>
   calls_of K_train (trace (REPOSITORY_SYNC (demo_env None [] [1, 2, 3]) [] acme_url empty_db)) =
     [Train ''acme'' ''widgets'' (map (attach 42 \<circ> to_issue) (map raw_issue [1, 2, 3])) []] \<and>
   Invoke K_train \<in> set (trace (REPOSITORY_SYNC (demo_env None [] [1]) [] acme_url empty_db)) \<and>
   calls_of K_train (trace (REPOSITORY_SYNC (demo_env None [] [1]) [] acme_url empty_db)) = [] \<and>
   percents_of TRAIN (trace (REPOSITORY_SYNC (demo_env None [] [1]) [] acme_url empty_db)) = [0, 1]"
proof -
  have i3: "Invoke K_train \<in> set (trace (REPOSITORY_SYNC (demo_env None [] [1, 2, 3]) [] acme_url empty_db))"
    by code_simp
  have i1: "Invoke K_train \<in> set (trace (REPOSITORY_SYNC (demo_env None [] [1]) [] acme_url empty_db))"
    by code_simp
  from train_skips_below_two_issues[OF demo_valid i3] train_skips_below_two_issues[OF demo_valid i1] i3 i1
  show ?thesis
    by (auto simp: demo_env_def demo_api_def always_acme_def acme_def fetcher_def)
qed

text \<open>The claim as written speaks of every run with two or more fetched issues. Here two
  issues are fetched, the upsert of the repository record is rejected, the train task is
  never launched and the classifier is not called.\<close>

theorem train_never_launched_counterexample:
  "snd (getIssues db_down_env ''acme'' ''widgets'') = Inr (map raw_issue [1, 2]) \<and>
   calls_of K_train (trace (REPOSITORY_SYNC db_down_env [] acme_url empty_db)) = [] \<and>
   progress_of TRAIN (trace (REPOSITORY_SYNC db_down_env [] acme_url empty_db)) = []"
proof -
  have "calls_of K_train (trace (REPOSITORY_SYNC db_down_env [] acme_url empty_db)) = []"
    by code_simp
  moreover have "progress_of TRAIN (trace (REPOSITORY_SYNC db_down_env [] acme_url empty_db)) = []"
    by code_simp
  ultimately show ?thesis by (simp add: db_down_env_def demo_env_def fetcher_def)
qed

section \<open>Progress percents per task\<close>

lemmas script_defs = script_def repo_script_def issues_script_def records_script_def
  webhooks_script_def train_script_def

lemma percents_of_events: "percents_of t (events_of (task_key t) tr) = percents_of t tr"
  by (simp add: percents_of_def progress_of_events)

lemma percents_of_append: "percents_of t (xs @ ys) = percents_of t xs @ percents_of t ys"
  by (simp add: percents_of_def progress_of_def)

lemma percents_of_reports: "percents_of ISSUES (map (\<lambda>q. P ISSUES q None) ps) = ps"
  by (induction ps) (simp_all add: percents_of_def progress_of_def)

lemma sorted_final_script:
  assumes "p = NotStarted \<or> p = Succeeded \<or> p = Failed" "t \<noteq> ISSUES"
  shows "sorted (percents_of t (script e gh u (task_key t) p))"
proof (cases t)
  case REPO then show ?thesis using assms(1)
    by (auto simp: script_defs task_key_def percents_of_def progress_of_def)
next
  case ISSUES then show ?thesis using assms(2) by simp
next
  case DATABASE then show ?thesis using assms(1)
    by (auto simp: script_defs task_key_def percents_of_def progress_of_def Let_def split: option.splits)
next
  case WEBHOOK then show ?thesis using assms(1)
    by (auto simp: script_defs task_key_def percents_of_def progress_of_def Let_def)
next
  case TRAIN then show ?thesis using assms(1)
    by (auto simp: script_defs task_key_def percents_of_def progress_of_def Let_def)
qed

lemma percents_of_Cons:
  "percents_of t (ev # tr) =
     (case ev of Progress p \<Rightarrow> (if task p = t then [percent p] else []) | _ \<Rightarrow> []) @ percents_of t tr"
  by (simp add: percents_of_def progress_of_def split: event.splits)

lemma percents_of_Nil: "percents_of t [] = []"
  by (simp add: percents_of_def progress_of_def)

lemma issues_final_script:
  "percents_of ISSUES (issues_script e u p) =
     (if p = Succeeded then fst (getIssues e (url_owner u) (url_name u)) @ [1]
      else if p = Failed then fst (getIssues e (url_owner u) (url_name u))
      else case p of Awaiting_getIssues n \<Rightarrow> take n (fst (getIssues e (url_owner u) (url_name u))) | _ \<Rightarrow> [])"
  by (cases p)
     (simp_all add: issues_script_def Let_def percents_of_append percents_of_reports percents_of_Cons
        percents_of_Nil)

lemma succeeded_last_script:
  "percents_of t (script e gh u (task_key t) Succeeded) \<noteq> [] \<and>
   last (percents_of t (script e gh u (task_key t) Succeeded)) = 1"
proof (cases t)
  case ISSUES
  then show ?thesis by (simp add: script_def task_key_def issues_final_script)
qed (simp_all add: script_defs task_key_def percents_of_def progress_of_def Let_def)

lemma task_ok_script: "Task_ok k \<in> set (script e gh u k p) \<Longrightarrow> p = Succeeded"
proof (cases k)
  case K_repo then show "Task_ok k \<in> set (script e gh u k p) \<Longrightarrow> p = Succeeded"
    by (cases p) (simp_all add: script_defs)
next
  case K_issues then show "Task_ok k \<in> set (script e gh u k p) \<Longrightarrow> p = Succeeded"
    by (cases p) (auto simp: script_defs)
next
  case K_records then show "Task_ok k \<in> set (script e gh u k p) \<Longrightarrow> p = Succeeded"
    by (cases p) (auto simp: script_defs Let_def split: option.splits)
next
  case K_webhooks then show "Task_ok k \<in> set (script e gh u k p) \<Longrightarrow> p = Succeeded"
    by (cases p) (simp_all add: script_defs Let_def)
next
  case K_train then show "Task_ok k \<in> set (script e gh u k p) \<Longrightarrow> p = Succeeded"
    by (cases p) (auto simp: script_defs Let_def split: if_splits)
qed

lemma task_ok_succeeded:
  assumes "scripted e gh u st" "Task_ok k \<in> set (trace st)"
  shows "phases st k = Succeeded"
proof -
  have "Task_ok k \<in> set (events_of k (trace st))" using assms(2) by (simp add: events_of_def event_key_def)
  then show ?thesis using script_of[OF assms(1), of k] task_ok_script by simp
qed

lemma sorted_snoc_one: "sorted ps \<Longrightarrow> \<forall>p\<in>set ps. p \<le> (1::rat) \<Longrightarrow> sorted (ps @ [1])"
  by (simp add: sorted_append)

text \<open>
  Claim C8, as amended. Within one run, the percents that the Repo, Database, Webhook and
  Train tasks emit are non-decreasing. The Issues task forwards the percents the issue
  fetcher reports, unchanged and in order, and adds percent 1 when the fetch succeeds; so
  its percents are non-decreasing whenever the fetcher's reports are non-decreasing and
  none exceeds 1. For every task that succeeds, the last percent it emits is exactly 1.
\<close>

theorem progress_non_decreasing_per_task:
  assumes "socket_github e = Some gh" "parseGitHubUrl e url = Some u" "url_name u \<noteq> []"
  shows "(\<forall>t. t \<noteq> ISSUES \<longrightarrow> sorted (percents_of t (trace (REPOSITORY_SYNC e sched url d)))) \<and>
         percents_of ISSUES (trace (REPOSITORY_SYNC e sched url d)) =
           (if phases (REPOSITORY_SYNC e sched url d) K_issues = Succeeded
            then fst (getIssues e (url_owner u) (url_name u)) @ [1]
            else if phases (REPOSITORY_SYNC e sched url d) K_issues = Failed
            then fst (getIssues e (url_owner u) (url_name u))
            else []) \<and>
         (sorted (fst (getIssues e (url_owner u) (url_name u))) \<and>
          (\<forall>p\<in>set (fst (getIssues e (url_owner u) (url_name u))). p \<le> 1) \<longrightarrow>
            sorted (percents_of ISSUES (trace (REPOSITORY_SYNC e sched url d)))) \<and>
         (\<forall>t. Task_ok (task_key t) \<in> set (trace (REPOSITORY_SYNC e sched url d)) \<longrightarrow>
            percents_of t (trace (REPOSITORY_SYNC e sched url d)) \<noteq> [] \<and>
            last (percents_of t (trace (REPOSITORY_SYNC e sched url d))) = 1)"
proof -
  let ?S = "REPOSITORY_SYNC e sched url d"
  let ?ps = "fst (getIssues e (url_owner u) (url_name u))"
  note f = sync_final[OF assms(1,2,3), where d = d and sched = sched]
  have pe: "percents_of t (trace ?S) = percents_of t (script e gh u (task_key t) (phases ?S (task_key t)))" for t
    using percents_of_events[of t "trace ?S"] script_of[OF f(2), of "task_key t"] by simp
  have a: "\<forall>t. t \<noteq> ISSUES \<longrightarrow> sorted (percents_of t (trace ?S))"
    using pe sorted_final_script[OF final_pc[OF f(1,3)]] by simp
  have fi: "phases ?S K_issues = NotStarted \<or> phases ?S K_issues = Succeeded \<or> phases ?S K_issues = Failed"
    by (rule final_pc[OF f(1,3)])
  have b: "percents_of ISSUES (trace ?S) =
      (if phases ?S K_issues = Succeeded then ?ps @ [1]
       else if phases ?S K_issues = Failed then ?ps else [])"
    using pe[of ISSUES] fi by (auto simp: task_key_def script_def issues_final_script)
  have c: "sorted ?ps \<and> (\<forall>p\<in>set ?ps. p \<le> 1) \<longrightarrow> sorted (percents_of ISSUES (trace ?S))"
    unfolding b using sorted_snoc_one[of ?ps] by simp
  have dd: "\<forall>t. Task_ok (task_key t) \<in> set (trace ?S) \<longrightarrow>
      percents_of t (trace ?S) \<noteq> [] \<and> last (percents_of t (trace ?S)) = 1"
  proof (intro allI impI)
    fix t assume "Task_ok (task_key t) \<in> set (trace ?S)"
    from task_ok_succeeded[OF f(2) this] have "phases ?S (task_key t) = Succeeded" .
    then show "percents_of t (trace ?S) \<noteq> [] \<and> last (percents_of t (trace ?S)) = 1"
      using pe[of t] succeeded_last_script[of t e gh u] by simp
  qed
  from a b c dd show ?thesis by blast
qed

theorem progress_non_decreasing_per_task_witness:
  "sorted (percents_of DATABASE (trace (REPOSITORY_SYNC (demo_env None [0, 1/2] [1, 2, 3]) [] acme_url empty_db))) \<and>
   sorted [0, 1/2 :: rat] \<and>
   percents_of ISSUES (trace (REPOSITORY_SYNC (demo_env None [0, 1/2] [1, 2, 3]) [] acme_url empty_db)) = [0, 1/2, 1] \<and>
   sorted (percents_of ISSUES (trace (REPOSITORY_SYNC (demo_env None [0, 1/2] [1, 2, 3]) [] acme_url empty_db))) \<and>
   Task_ok (task_key DATABASE) \<in> set (trace (REPOSITORY_SYNC (demo_env None [0, 1/2] [1, 2, 3]) [] acme_url empty_db)) \<and>
   last (percents_of DATABASE (trace (REPOSITORY_SYNC (demo_env None [0, 1/2] [1, 2, 3]) [] acme_url empty_db))) = 1"
proof -
  have ok: "Task_ok (task_key DATABASE) \<in> set (trace (REPOSITORY_SYNC (demo_env None [0, 1/2] [1, 2, 3]) [] acme_url empty_db))"
    by code_simp
  have su: "phases (REPOSITORY_SYNC (demo_env None [0, 1/2] [1, 2, 3]) [] acme_url empty_db) K_issues = Succeeded"
    by code_simp
  have ps: "fst (getIssues (demo_env None [0, 1/2] [1, 2, 3]) ''acme'' ''widgets'') = [0, 1/2]"
    by (simp add: demo_env_def fetcher_def)
  from progress_non_decreasing_per_task[OF demo_valid, of None "[0, 1/2]" "[1, 2, 3]" "[]" empty_db] ok su ps
  show ?thesis by simp
qed

text \<open>The claim as written promises non-decreasing percents for every task. The handler
  hands the fetcher's reports on as they come: a fetcher that reports one half and then
  one fifth makes the Issues task emit exactly that.\<close>

theorem issues_progress_counterexample:
  "fst (getIssues wobbly_env ''acme'' ''widgets'') = [1/2, 1/5] \<and>
   percents_of ISSUES (trace (REPOSITORY_SYNC wobbly_env [] acme_url empty_db)) = [1/2, 1/5, 1] \<and>
   \<not> sorted (percents_of ISSUES (trace (REPOSITORY_SYNC wobbly_env [] acme_url empty_db)))"
proof -
  have "percents_of ISSUES (trace (REPOSITORY_SYNC wobbly_env [] acme_url empty_db)) = [1/2, 1/5, 1]"
    by code_simp
  then show ?thesis by (simp add: wobbly_env_def demo_env_def fetcher_def)
qed

section \<open>Bodies are invoked after their dependencies\<close>

lemma ord_plain:
  assumes "invoked_after_deps tr" "\<forall>k. Invoke k \<notin> set es"
  shows "invoked_after_deps (tr @ es)"
  unfolding invoked_after_deps_def
proof (intro allI impI)
  fix pre k post
  assume eq: "tr @ es = pre @ Invoke k # post"
  then obtain us where "(tr = pre @ us \<and> us @ es = Invoke k # post) \<or> (tr @ us = pre \<and> es = us @ Invoke k # post)"
    by (auto simp: append_eq_append_conv2)
  then show "\<forall>dd\<in>set (deps k). Task_ok dd \<in> set pre"
  proof
    assume a: "tr = pre @ us \<and> us @ es = Invoke k # post"
    show ?thesis
    proof (cases us)
      case Nil
      with a assms(2) show ?thesis by auto
    next
      case (Cons x xs)
      with a have "tr = pre @ Invoke k # xs" by simp
      with assms(1) show ?thesis by (auto simp: invoked_after_deps_def)
    qed
  next
    assume "tr @ us = pre \<and> es = us @ Invoke k # post"
    with assms(2) show ?thesis by auto
  qed
qed

lemma ord_invoke:
  assumes "invoked_after_deps tr" "\<forall>dd\<in>set (deps k). Task_ok dd \<in> set tr" "\<forall>k'. Invoke k' \<notin> set es"
  shows "invoked_after_deps (tr @ Invoke k # es)"
proof -
  have "invoked_after_deps (tr @ [Invoke k])"
    unfolding invoked_after_deps_def
  proof (intro allI impI)
    fix pre k' post
    assume eq: "tr @ [Invoke k] = pre @ Invoke k' # post"
    show "\<forall>dd\<in>set (deps k'). Task_ok dd \<in> set pre"
    proof (cases post rule: rev_cases)
      case Nil
      with eq assms(2) show ?thesis by simp
    next
      case (snoc ys y)
      with eq have "tr = pre @ Invoke k' # ys" by simp
      with assms(1) show ?thesis by (auto simp: invoked_after_deps_def)
    qed
  qed
  from ord_plain[OF this assms(3)] show ?thesis by simp
qed

lemma trans_trace:
  "trans e gh u st st' \<Longrightarrow>
   (\<exists>es. trace st' = trace st @ es \<and> (\<forall>k. Invoke k \<notin> set es)) \<or>
   (\<exists>k es. trace st' = trace st @ Invoke k # es \<and> ready st k \<and> (\<forall>k'. Invoke k' \<notin> set es))"
  by (induct rule: trans.induct) (simp_all add: task_failed_eq final_callback_eq)

lemma succeeded_script: "Task_ok k \<in> set (script e gh u k Succeeded)"
  by (cases k) (simp_all add: script_defs Let_def)

lemma succeeded_task_ok:
  assumes "scripted e gh u st" "phases st k = Succeeded"
  shows "Task_ok k \<in> set (trace st)"
proof -
  have "Task_ok k \<in> set (events_of k (trace st))"
    using script_of[OF assms(1), of k] assms(2) succeeded_script by simp
  then show ?thesis by (simp add: events_of_def)
qed

lemma failed_script: "Task_failed k err \<in> set (script e gh u k p) \<Longrightarrow> p = Failed"
proof (cases k)
  case K_repo then show "Task_failed k err \<in> set (script e gh u k p) \<Longrightarrow> p = Failed"
    by (cases p) (simp_all add: script_defs)
next
  case K_issues then show "Task_failed k err \<in> set (script e gh u k p) \<Longrightarrow> p = Failed"
    by (cases p) (auto simp: script_defs)
next
  case K_records then show "Task_failed k err \<in> set (script e gh u k p) \<Longrightarrow> p = Failed"
    by (cases p) (auto simp: script_defs Let_def split: option.splits)
next
  case K_webhooks then show "Task_failed k err \<in> set (script e gh u k p) \<Longrightarrow> p = Failed"
    by (cases p) (simp_all add: script_defs Let_def)
next
  case K_train then show "Task_failed k err \<in> set (script e gh u k p) \<Longrightarrow> p = Failed"
    by (cases p) (auto simp: script_defs Let_def split: if_splits)
qed

lemma task_failed_phase:
  assumes "scripted e gh u st" "Task_failed k err \<in> set (trace st)"
  shows "phases st k = Failed"
proof -
  have "Task_failed k err \<in> set (events_of k (trace st))" using assms(2) by (simp add: events_of_def event_key_def)
  then show ?thesis using script_of[OF assms(1), of k] failed_script by simp
qed

lemma ordered_trans:
  assumes s: "sane e gh u d st" and i: "ordered e gh u st" and t: "trans e gh u st st'"
  shows "ordered e gh u st'"
proof -
  from i have sc: "scripted e gh u st" and o: "invoked_after_deps (trace st)" by (simp_all add: ordered_def)
  have sc': "scripted e gh u st'" by (rule scripted_trans[OF s sc t])
  from trans_trace[OF t] have "invoked_after_deps (trace st')"
  proof (elim disjE exE conjE)
    fix es assume "trace st' = trace st @ es" "\<forall>k. Invoke k \<notin> set es"
    then show ?thesis using ord_plain[OF o] by simp
  next
    fix k es assume a: "trace st' = trace st @ Invoke k # es" "ready st k" "\<forall>k'. Invoke k' \<notin> set es"
    have "\<forall>dd\<in>set (deps k). Task_ok dd \<in> set (trace st)"
      using ready_deps[OF a(2)] succeeded_task_ok[OF sc] by blast
    from ord_invoke[OF o this a(3)] a(1) show ?thesis by simp
  qed
  with sc' show ?thesis by (simp add: ordered_def)
qed

lemma sync_ordered:
  assumes "socket_github e = Some gh" "parseGitHubUrl e url = Some u" "url_name u \<noteq> []"
  shows "invoked_after_deps (trace (REPOSITORY_SYNC e sched url d))"
proof -
  have p: "preserved e gh u d (ordered e gh u)"
    by (rule preservedI) (rule ordered_trans)
  have "ordered e gh u (started u d)"
    using scripted_started[of e gh u d]
    by (simp add: ordered_def invoked_after_deps_def started_def emit_def initial_def
        Cons_eq_append_conv)
  from sync_inv[where I = "ordered e gh u", OF assms this p]
  show ?thesis by (simp add: ordered_def)
qed

text \<open>
  Claim C1. In every run of the pipeline, wherever the trace shows the body of a task
  being invoked, each of the task's declared dependencies (\<open>deps\<close>: records after repo
  and issues, webhooks after repo, train after repo and records) has called back without
  an error earlier in the trace; and when a dependency has called back with an error, the
  body of the dependent task is not invoked anywhere in the trace.
\<close>

theorem body_invoked_only_after_dependencies:
  assumes "socket_github e = Some gh" "parseGitHubUrl e url = Some u" "url_name u \<noteq> []"
  shows "(\<forall>i k dd. i < length (trace (REPOSITORY_SYNC e sched url d)) \<and>
            trace (REPOSITORY_SYNC e sched url d) ! i = Invoke k \<and> dd \<in> set (deps k) \<longrightarrow>
            Task_ok dd \<in> set (take i (trace (REPOSITORY_SYNC e sched url d)))) \<and>
         (\<forall>k dd err. dd \<in> set (deps k) \<and> Task_failed dd err \<in> set (trace (REPOSITORY_SYNC e sched url d)) \<longrightarrow>
            Invoke k \<notin> set (trace (REPOSITORY_SYNC e sched url d)))"
proof (intro conjI allI impI)
  let ?S = "REPOSITORY_SYNC e sched url d"
  fix i k dd
  assume a: "i < length (trace ?S) \<and> trace ?S ! i = Invoke k \<and> dd \<in> set (deps k)"
  then have "trace ?S = take i (trace ?S) @ Invoke k # drop (Suc i) (trace ?S)"
    by (metis id_take_nth_drop)
  with sync_ordered[OF assms, of sched d] a show "Task_ok dd \<in> set (take i (trace ?S))"
    unfolding invoked_after_deps_def by blast
next
  let ?S = "REPOSITORY_SYNC e sched url d"
  fix k dd err
  assume a: "dd \<in> set (deps k) \<and> Task_failed dd err \<in> set (trace ?S)"
  note f = sync_final[OF assms, where d = d and sched = sched]
  from task_failed_phase[OF f(2)] a have fl: "phases ?S dd = Failed" by blast
  show "Invoke k \<notin> set (trace ?S)"
  proof
    assume "Invoke k \<in> set (trace ?S)"
    from invoked_started[OF f(2) this] have "phases ?S k \<noteq> NotStarted" .
    from sane_deps[OF f(1) this, of dd] a fl show False by simp
  qed
qed

theorem body_invoked_only_after_dependencies_witness:
  "trace (REPOSITORY_SYNC (demo_env None [] [1, 2, 3]) [K_issues, K_webhooks] acme_url empty_db) ! 10 = Invoke K_records \<and>
   K_repo \<in> set (deps K_records) \<and>
   Task_ok K_repo \<in> set (take 10 (trace (REPOSITORY_SYNC (demo_env None [] [1, 2, 3]) [K_issues, K_webhooks] acme_url empty_db))) \<and>
   K_repo \<in> set (deps K_webhooks) \<and>
   Task_failed K_repo (JsError (Some ''Not Found'')) \<in> set (trace (REPOSITORY_SYNC no_repo_env [] acme_url empty_db)) \<and>
   Invoke K_webhooks \<notin> set (trace (REPOSITORY_SYNC no_repo_env [] acme_url empty_db))"
proof -
  have l: "10 < length (trace (REPOSITORY_SYNC (demo_env None [] [1, 2, 3]) [K_issues, K_webhooks] acme_url empty_db))"
    by code_simp
  have n: "trace (REPOSITORY_SYNC (demo_env None [] [1, 2, 3]) [K_issues, K_webhooks] acme_url empty_db) ! 10 = Invoke K_records"
    by code_simp
  have fl: "Task_failed K_repo (JsError (Some ''Not Found'')) \<in> set (trace (REPOSITORY_SYNC no_repo_env [] acme_url empty_db))"
    by code_simp
  have v: "socket_github no_repo_env = Some \<lparr>repos_get = repo_unreachable, createHook = hook_answers None\<rparr>"
    "parseGitHubUrl no_repo_env acme_url =
       Some \<lparr>url_owner = ''acme'', url_name = ''widgets'', url_repo = ''acme/widgets''\<rparr>"
    by (simp_all add: no_repo_env_def demo_env_def parse_acme)
  have d1: "K_repo \<in> set (deps K_records)" and d2: "K_repo \<in> set (deps K_webhooks)" by simp_all
  from body_invoked_only_after_dependencies[OF demo_valid, of None "[]" "[1, 2, 3]" "[K_issues, K_webhooks]" empty_db]
  have "10 < length (trace (REPOSITORY_SYNC (demo_env None [] [1, 2, 3]) [K_issues, K_webhooks] acme_url empty_db)) \<and>
      trace (REPOSITORY_SYNC (demo_env None [] [1, 2, 3]) [K_issues, K_webhooks] acme_url empty_db) ! 10 = Invoke K_records \<and>
      K_repo \<in> set (deps K_records) \<longrightarrow>
      Task_ok K_repo \<in> set (take 10 (trace (REPOSITORY_SYNC (demo_env None [] [1, 2, 3]) [K_issues, K_webhooks] acme_url empty_db)))"
    by blast
  with l n d1 have a: "Task_ok K_repo \<in> set (take 10 (trace (REPOSITORY_SYNC (demo_env None [] [1, 2, 3]) [K_issues, K_webhooks] acme_url empty_db)))"
    by blast
  from body_invoked_only_after_dependencies[OF v demo_valid(3), of "[]" empty_db]
  have "K_repo \<in> set (deps K_webhooks) \<and>
      Task_failed K_repo (JsError (Some ''Not Found'')) \<in> set (trace (REPOSITORY_SYNC no_repo_env [] acme_url empty_db)) \<longrightarrow>
      Invoke K_webhooks \<notin> set (trace (REPOSITORY_SYNC no_repo_env [] acme_url empty_db))"
    by blast
  with fl d2 have b: "Invoke K_webhooks \<notin> set (trace (REPOSITORY_SYNC no_repo_env [] acme_url empty_db))"
    by blast
  from n d1 a d2 fl b show ?thesis by blast
qed

section \<open>The caller is answered when the run ends\<close>

lemma awaiting_in_flight: "awaiting k (phases st k) \<Longrightarrow> \<not> uncaught st \<Longrightarrow> k \<in> set (in_flight st)"
  using all_keys_complete[of k] by (simp add: in_flight_def)

lemma trans_shape:
  "trans e gh u st st' \<Longrightarrow>
   (\<exists>k p. (ready st k \<or> awaiting k (phases st k)) \<and> p \<noteq> Failed \<and> phases st k \<noteq> Failed \<and>
           phases st' = (phases st)(k := p) \<and>
           hasError st' = hasError st \<and> delivered st' = delivered st) \<or>
   (\<exists>k err. awaiting k (phases st k) \<and> st' = task_failed u k err st) \<or>
   (in_flight st = [] \<and> (\<forall>k. \<not> ready st k) \<and> st' = final_callback u None (results st) st)"
proof (induct rule: trans.induct)
  case (start_repo st) then show ?case
    by (intro disjI1 exI[of _ K_repo] exI[of _ Awaiting_get]) (simp add: ready_def)
next
  case (start_issues st) then show ?case
    by (intro disjI1 exI[of _ K_issues] exI[of _ "Awaiting_getIssues 0"]) (simp add: ready_def)
next
  case (start_records st R) then show ?case
    by (intro disjI1 exI[of _ K_records] exI[of _ Awaiting_upsert]) (simp add: ready_def)
next
  case (start_webhooks st R) then show ?case
    by (intro disjI1 exI[of _ K_webhooks] exI[of _ Awaiting_createHook]) (simp add: ready_def)
next
  case (start_train_skip st) then show ?case
    by (intro disjI1 exI[of _ K_train] exI[of _ Succeeded]) (simp add: ready_def)
next
  case (start_train_call st R) then show ?case
    by (intro disjI1 exI[of _ K_train] exI[of _ Awaiting_train]) (simp add: ready_def)
next
  case (repo_ok st R) then show ?case
    by (intro disjI1 exI[of _ K_repo] exI[of _ Succeeded]) (simp add: awaiting_def)
next
  case (repo_err st err) then show ?case
    by (intro disjI2 disjI1 exI[of _ K_repo] exI[of _ err]) (simp add: awaiting_def)
next
  case (issues_report st n) then show ?case
    by (intro disjI1 exI[of _ K_issues] exI[of _ "Awaiting_getIssues (Suc n)"]) (simp add: awaiting_def)
next
  case (issues_ok st I) then show ?case
    by (intro disjI1 exI[of _ K_issues] exI[of _ Succeeded]) (simp add: awaiting_def)
next
  case (issues_err st err) then show ?case
    by (intro disjI2 disjI1 exI[of _ K_issues] exI[of _ err]) (simp add: awaiting_def)
next
  case (upserted_ok st R) then show ?case
    by (intro disjI1 exI[of _ K_records] exI[of _ Awaiting_destroy]) (simp add: awaiting_def)
next
  case (upserted_err st err) then show ?case
    by (intro disjI2 disjI1 exI[of _ K_records] exI[of _ err]) (simp add: awaiting_def)
next
  case (destroyed_ok st R) then show ?case
    by (intro disjI1 exI[of _ K_records] exI[of _ Awaiting_bulkCreate]) (simp add: awaiting_def)
next
  case (destroyed_err st err) then show ?case
    by (intro disjI2 disjI1 exI[of _ K_records] exI[of _ err]) (simp add: awaiting_def)
next
  case (created_ok st) then show ?case
    by (intro disjI1 exI[of _ K_records] exI[of _ Succeeded]) (simp add: awaiting_def)
next
  case (created_err st err) then show ?case
    by (intro disjI2 disjI1 exI[of _ K_records] exI[of _ err]) (simp add: awaiting_def)
next
  case (webhooks_done st R) then show ?case
    by (intro disjI1 exI[of _ K_webhooks] exI[of _ Succeeded]) (simp add: awaiting_def)
next
  case (train_ok st s) then show ?case
    by (intro disjI1 exI[of _ K_train] exI[of _ Succeeded]) (simp add: awaiting_def)
next
  case (train_err st err) then show ?case
    by (intro disjI2 disjI1 exI[of _ K_train] exI[of _ err]) (simp add: awaiting_def)
next
  case (finish st) then show ?case by simp
qed

lemma answered_trans:
  assumes s: "sane e gh u d st" and i: "answered u st" and t: "trans e gh u st st'"
  shows "answered u st'"
proof -
  from s have nu: "\<not> uncaught st" by (simp add: sane_def)
  from trans_shape[OF t] consider
    (move) k p where "ready st k \<or> awaiting k (phases st k)" "p \<noteq> Failed" "phases st k \<noteq> Failed"
      "phases st' = (phases st)(k := p)" "hasError st' = hasError st" "delivered st' = delivered st"
    | (fail) k err where "awaiting k (phases st k)" "st' = task_failed u k err st"
    | (fin) "in_flight st = []" "\<forall>k. \<not> ready st k" "st' = final_callback u None (results st) st"
    by blast
  then show ?thesis
  proof cases
    case move
    have busy: "in_flight st \<noteq> [] \<or> (\<exists>k. ready st k)"
      using move(1) awaiting_in_flight[OF _ nu, of k] by auto
    have f: "(\<exists>j. phases st' j = Failed) \<longleftrightarrow> (\<exists>j. phases st j = Failed)"
      using move(2,3,4) by (auto simp: fun_upd_apply split: if_splits)
    from i busy have "delivered st = None \<or> hasError st" by (cases "delivered st") (auto simp: answered_def)
    then show ?thesis using i move(5,6) f by (auto simp: answered_def)
  next
    case fail
    show ?thesis unfolding fail(2) by (auto simp: answered_def task_failed_eq)
  next
    case fin
    show ?thesis unfolding fin(3) using i fin(1,2)
      by (auto simp: answered_def final_callback_eq in_flight_def ready_def)
  qed
qed

lemma answered_started: "answered u (started u d)"
  by (simp add: answered_def started_def emit_def initial_def)

lemma pq_delivers:
  assumes "in_flight (process_queue u s) = []" "\<not> uncaught (process_queue u s)"
  shows "delivered (process_queue u s) \<noteq> None"
proof -
  let ?s = "fold (run_task u) all_keys s"
  show ?thesis
  proof (cases "in_flight ?s = [] \<and> \<not> uncaught ?s")
    case True
    then have "process_queue u s = final_callback u None (results ?s) ?s" by (simp add: process_queue_def Let_def)
    then show ?thesis by (simp add: final_callback_eq)
  next
    case False
    then have "process_queue u s = ?s" by (auto simp: process_queue_def Let_def)
    with assms False show ?thesis by simp
  qed
qed

lemma resume_pending:
  assumes "k \<in> set (in_flight st)" "snd (resume e gh u k st) = None" "\<not> uncaught (fst (resume e gh u k st))"
  shows "k \<in> set (in_flight (fst (resume e gh u k st)))"
proof -
  from in_flightD[OF assms(1)] have aw: "awaiting k (phases st k)" by simp
  have "awaiting k (phases (fst (resume e gh u k st)) k)"
  proof (cases k)
    case K_repo then show ?thesis using aw assms(2,3)
      by (auto simp: resume_def awaiting_def repo_resume_def op_defs split: sum.splits)
  next
    case K_issues then show ?thesis using aw assms(2,3)
      by (auto simp: resume_def awaiting_def issues_resume_def op_defs split: sum.splits pc.splits prod.splits if_splits)
  next
    case K_records then show ?thesis using aw assms(2,3)
      by (auto simp: resume_def awaiting_def records_upserted_def records_destroyed_def records_created_def
          Issue_bulkCreate_def op_defs Let_def split: option.splits val.splits)
  next
    case K_webhooks then show ?thesis using aw assms(2,3)
      by (auto simp: resume_def awaiting_def webhooks_resume_def op_defs split: option.splits val.splits)
  next
    case K_train then show ?thesis using aw assms(2,3)
      by (auto simp: resume_def awaiting_def train_resume_def op_defs split: option.splits val.splits sum.splits)
  qed
  then show ?thesis using assms(3) by (rule awaiting_in_flight)
qed

lemma sane_step:
  "sane e gh u d st \<Longrightarrow> k \<in> set (in_flight st) \<Longrightarrow> sane e gh u d (step e gh u k st)"
  using step_inv[where I = "\<lambda>st. True" and e = e and gh = gh and u = u and d = d and st = st and k = k]
  by (simp add: preserved_def)

lemma step_delivers:
  assumes s: "sane e gh u d st" and k: "k \<in> set (in_flight st)"
    and q: "in_flight (step e gh u k st) = []"
  shows "delivered (step e gh u k st) \<noteq> None"
proof -
  from sane_step[OF s k] have nu: "\<not> uncaught (step e gh u k st)" by (simp add: sane_def)
  obtain st' out where r: "resume e gh u k st = (st', out)" by (cases "resume e gh u k st")
  show ?thesis
  proof (cases out)
    case None
    then have eq: "step e gh u k st = st'" using r by (simp add: step_def settle_def)
    from resume_pending[OF k, of e gh u] r None nu eq have "k \<in> set (in_flight st')" by simp
    with q eq show ?thesis by simp
  next
    case (Some x)
    show ?thesis
    proof (cases x)
      case (Inl err)
      then have "step e gh u k st = task_failed u k err st'" using r Some by (simp add: step_def settle_def)
      then show ?thesis by (simp add: task_failed_eq)
    next
      case (Inr v)
      then have eq: "step e gh u k st = process_queue u (task_succeeded k v st')"
        using r Some by (simp add: step_def)
      from pq_delivers[of u "task_succeeded k v st'"] q nu show ?thesis unfolding eq by simp
    qed
  qed
qed

lemma run_delivers:
  assumes "sane e gh u d st" "in_flight st = [] \<longrightarrow> delivered st \<noteq> None"
  shows "delivered (run e gh u sched st) \<noteq> None"
  using assms
proof (induction e gh u sched st rule: run.induct)
  case (1 e gh u sched st)
  note s = "1.prems"(1) and q = "1.prems"(2)
  show ?case
  proof (cases "in_flight st")
    case Nil
    then show ?thesis using q by (subst run.simps) simp
  next
    case (Cons k0 ks0)
    then have k0: "k0 \<in> set (in_flight st)" by simp
    show ?thesis
    proof (cases sched)
      case Nil
      from "1.IH"(1)[OF Cons Nil sane_step[OF s k0]] step_delivers[OF s k0]
      show ?thesis using Cons Nil by (subst run.simps) auto
    next
      case (Cons k ks)
      note sc = Cons
      show ?thesis
      proof (cases "k \<in> set (in_flight st)")
        case True
        from "1.IH"(2)[OF \<open>in_flight st = k0 # ks0\<close> sc True sane_step[OF s True]] step_delivers[OF s True]
        show ?thesis using \<open>in_flight st = k0 # ks0\<close> sc True by (subst run.simps) auto
      next
        case False
        from "1.IH"(3)[OF \<open>in_flight st = k0 # ks0\<close> sc False s q]
        show ?thesis using \<open>in_flight st = k0 # ks0\<close> sc False by (subst run.simps) simp
      qed
    qed
  qed
qed

lemma sync_delivers:
  assumes "socket_github e = Some gh" "parseGitHubUrl e url = Some u" "url_name u \<noteq> []"
  shows "delivered (REPOSITORY_SYNC e sched url d) \<noteq> None"
proof -
  have "sane e gh u d (started u d) \<and> True" using sane_started by simp
  from process_queue_inv[where I = "\<lambda>st. True", OF this]
  have s: "sane e gh u d (process_queue u (started u d))" by (simp add: preserved_def)
  then have "\<not> uncaught (process_queue u (started u d))" by (simp add: sane_def)
  with pq_delivers[of u "started u d"]
  have "in_flight (process_queue u (started u d)) = [] \<longrightarrow> delivered (process_queue u (started u d)) \<noteq> None"
    by blast
  from run_delivers[OF s this] show ?thesis by (simp add: sync_eq[OF assms])
qed

lemma sync_answered:
  assumes "socket_github e = Some gh" "parseGitHubUrl e url = Some u" "url_name u \<noteq> []"
  shows "answered u (REPOSITORY_SYNC e sched url d)"
proof -
  have p: "preserved e gh u d (answered u)"
    by (rule preservedI) (rule answered_trans)
  from sync_inv[where I = "answered u", OF assms answered_started p] show ?thesis by blast
qed

lemma all_succeeded:
  assumes s: "sane e gh u d st" and q: "in_flight st = []" and ne: "\<not> hasError st"
    and nr: "\<forall>k. \<not> ready st k" and a: "answered u st"
  shows "phases st k = Succeeded"
proof -
  from s have nu: "\<not> uncaught st" by (simp add: sane_def)
  from a ne have nf: "phases st j \<noteq> Failed" for j by (auto simp: answered_def)
  have start: "phases st j \<noteq> NotStarted" if "list_all (\<lambda>dd. phases st dd = Succeeded) (deps j)" for j
    using nr that ne nu by (auto simp: ready_def)
  have fin: "phases st j = Succeeded" if "phases st j \<noteq> NotStarted" for j
    using final_pc[OF s q, of j] nf[of j] that by simp
  have r: "phases st K_repo = Succeeded" by (rule fin, rule start) simp
  have i: "phases st K_issues = Succeeded" by (rule fin, rule start) simp
  have rc: "phases st K_records = Succeeded" by (rule fin, rule start) (simp add: r i)
  have w: "phases st K_webhooks = Succeeded" by (rule fin, rule start) (simp add: r)
  have t: "phases st K_train = Succeeded" by (rule fin, rule start) (simp add: r rc)
  from r i rc w t show ?thesis by (cases k) simp_all
qed

section \<open>The webhook registrar does not influence the answer\<close>













section \<open>Runs in which nothing fails\<close>


lemma clean_run:
  assumes v: "socket_github e = Some gh" "parseGitHubUrl e url = Some u" "url_name u \<noteq> []"
    and nf: "\<forall>k. phases (REPOSITORY_SYNC e sched url d) k \<noteq> Failed"
  shows "delivered (REPOSITORY_SYNC e sched url d) =
           Some \<lparr>reply_error = None, reply_results = Some (results (REPOSITORY_SYNC e sched url d))\<rparr>"
    and "phases (REPOSITORY_SYNC e sched url d) k = Succeeded"
proof -
  let ?S = "REPOSITORY_SYNC e sched url d"
  note f = sync_final[OF v, where d = d and sched = sched]
  note a = sync_answered[OF v, of sched d]
  from a nf have ne: "\<not> hasError ?S" by (simp add: answered_def)
  from sync_delivers[OF v, of sched d] obtain r where r: "delivered ?S = Some r" by blast
  with a ne have x: "r = \<lparr>reply_error = None, reply_results = Some (results ?S)\<rparr>" "\<forall>k. \<not> ready ?S k"
    by (simp_all add: answered_def)
  from r x(1) show "delivered ?S = Some \<lparr>reply_error = None, reply_results = Some (results ?S)\<rparr>" by simp
  from all_succeeded[OF f(1) f(3) ne x(2) a] show "phases ?S k = Succeeded" .
qed



section \<open>What the train task produces\<close>

lemma sane_train_result:
  "sane e gh u d st \<Longrightarrow> results st K_train = (if phases st K_train = Succeeded then Some Undefined else None)"
  by (simp add: sane_def results_now_def)

lemma no_summary_trans:
  assumes s: "sane e gh u d st" and i: "no_summary st" and t: "trans e gh u st st'"
  shows "no_summary st'"
proof -
  from trans_shape[OF t] consider
    (move) "delivered st' = delivered st"
    | (fail) k err where "st' = task_failed u k err st"
    | (fin) "st' = final_callback u None (results st) st"
    by blast
  then show ?thesis
  proof cases
    case move
    then show ?thesis using i by (simp add: no_summary_def delivered_value_def)
  next
    case fail
    show ?thesis unfolding fail using i sane_train_result[OF s]
      by (auto simp: no_summary_def delivered_value_def task_failed_eq split: option.splits)
  next
    case fin
    show ?thesis unfolding fin using i sane_train_result[OF s]
      by (auto simp: no_summary_def delivered_value_def final_callback_eq split: option.splits)
  qed
qed

lemma failed_script_event:
  assumes "agrees e gh u k Failed"
  shows "\<exists>err. Task_failed k err \<in> set (script e gh u k Failed)"
proof (cases k)
  case K_repo then show ?thesis by (auto simp: script_defs)
next
  case K_issues then show ?thesis by (auto simp: script_defs)
next
  case K_records then show ?thesis using assms
    by (auto simp: script_defs agrees_def Let_def split: option.splits)
next
  case K_webhooks then show ?thesis using assms by (simp add: agrees_def)
next
  case K_train then show ?thesis using assms by (auto simp: script_defs agrees_def Let_def)
qed

lemma failed_task_event:
  assumes "sane e gh u d st" "scripted e gh u st" "phases st k = Failed"
  shows "\<exists>err. Task_failed k err \<in> set (trace st)"
proof -
  from sane_ok[OF assms(1), of k] assms(3) have "agrees e gh u k Failed" by (simp add: ok_def)
  from failed_script_event[OF this] obtain err where "Task_failed k err \<in> set (script e gh u k Failed)" by blast
  with script_of[OF assms(2), of k] assms(3) have "Task_failed k err \<in> set (events_of k (trace st))" by simp
  then show ?thesis by (auto simp: events_of_def)
qed

text \<open>
  Claim C4, as amended. The train task calls back with no value, after it called the
  classifier as well as after it skipped the call. So in every run the value stored under
  the train key, and the value under that key in the results the caller receives, is
  either absent or \<^verbatim>\<open>undefined\<close>, never the classifier's summary; when the task has
  completed it is \<^verbatim>\<open>undefined\<close>, and a run in which no task fails delivers exactly that.
\<close>

theorem train_produces_no_value:
  assumes "socket_github e = Some gh" "parseGitHubUrl e url = Some u" "url_name u \<noteq> []"
  shows "(results (REPOSITORY_SYNC e sched url d) K_train = None \<or>
          results (REPOSITORY_SYNC e sched url d) K_train = Some Undefined) \<and>
         (Task_ok K_train \<in> set (trace (REPOSITORY_SYNC e sched url d)) \<longrightarrow>
            results (REPOSITORY_SYNC e sched url d) K_train = Some Undefined) \<and>
         (delivered_value (REPOSITORY_SYNC e sched url d) K_train = None \<or>
          delivered_value (REPOSITORY_SYNC e sched url d) K_train = Some Undefined) \<and>
         ((\<forall>k err. Task_failed k err \<notin> set (trace (REPOSITORY_SYNC e sched url d))) \<longrightarrow>
            Task_ok K_train \<in> set (trace (REPOSITORY_SYNC e sched url d)) \<and>
            delivered_value (REPOSITORY_SYNC e sched url d) K_train = Some Undefined)"
proof -
  let ?S = "REPOSITORY_SYNC e sched url d"
  note f = sync_final[OF assms, where d = d and sched = sched]
  note r = sane_train_result[OF f(1)]
  have a: "results ?S K_train = None \<or> results ?S K_train = Some Undefined" by (simp add: r)
  have b: "Task_ok K_train \<in> set (trace ?S) \<longrightarrow> results ?S K_train = Some Undefined"
    using task_ok_succeeded[OF f(2), of K_train] by (simp add: r)
  have p: "preserved e gh u d no_summary"
    by (rule preservedI) (rule no_summary_trans)
  have "no_summary (started u d)"
    by (simp add: no_summary_def delivered_value_def started_def emit_def initial_def)
  from sync_inv[where I = no_summary, OF assms this p]
  have c: "delivered_value ?S K_train = None \<or> delivered_value ?S K_train = Some Undefined"
    by (simp add: no_summary_def)
  have dd: "Task_ok K_train \<in> set (trace ?S) \<and> delivered_value ?S K_train = Some Undefined"
    if h: "\<forall>k err. Task_failed k err \<notin> set (trace ?S)"
  proof -
    from h failed_task_event[OF f(1,2)] have "\<forall>k. phases ?S k \<noteq> Failed" by blast
    from clean_run[OF assms this]
    have dl: "delivered ?S = Some \<lparr>reply_error = None, reply_results = Some (results ?S)\<rparr>"
      and su: "phases ?S K_train = Succeeded" by blast+
    from succeeded_task_ok[OF f(2) su] dl su r show ?thesis by (simp add: delivered_value_def)
  qed
  from a b c dd show ?thesis by blast
qed

theorem train_produces_no_value_witness:
  "calls_of K_train (trace (REPOSITORY_SYNC (demo_env None [] [1, 2, 3]) [] acme_url empty_db)) =
     [Train ''acme'' ''widgets'' (map (attach 42 \<circ> to_issue) (map raw_issue [1, 2, 3])) []] \<and>
   Task_ok K_train \<in> set (trace (REPOSITORY_SYNC (demo_env None [] [1, 2, 3]) [] acme_url empty_db)) \<and>
   results (REPOSITORY_SYNC (demo_env None [] [1, 2, 3]) [] acme_url empty_db) K_train = Some Undefined \<and>
   delivered_value (REPOSITORY_SYNC (demo_env None [] [1, 2, 3]) [] acme_url empty_db) K_train = Some Undefined"
proof -
  let ?S = "REPOSITORY_SYNC (demo_env None [] [1, 2, 3]) [] acme_url empty_db"
  have c: "calls_of K_train (trace ?S) =
      [Train ''acme'' ''widgets'' (map (attach 42 \<circ> to_issue) (map raw_issue [1, 2, 3])) []]"
    by code_simp
  have ok: "Task_ok K_train \<in> set (trace ?S)" by code_simp
  have nf: "\<forall>k err. Task_failed k err \<notin> set (trace ?S)"
  proof (intro allI notI)
    fix k err assume "Task_failed k err \<in> set (trace ?S)"
    then have "Task_failed k err \<in> set (filter (\<lambda>ev. case ev of Task_failed k err \<Rightarrow> True | _ \<Rightarrow> False) (trace ?S))"
      by simp
    moreover have "filter (\<lambda>ev. case ev of Task_failed k err \<Rightarrow> True | _ \<Rightarrow> False) (trace ?S) = []"
      by code_simp
    ultimately show False by simp
  qed
  from train_produces_no_value[OF demo_valid, of None "[]" "[1, 2, 3]" "[]" empty_db] ok nf c
  show ?thesis by blast
qed

text \<open>The claim as written has the task produce the classifier's summary. Here the
  classifier is called on three issues and answers with a summary; the value stored and
  delivered under the train key is \<^verbatim>\<open>undefined\<close>.\<close>

theorem train_summary_counterexample:
  "classifier_train (demo_env None [] [1, 2, 3]) ''acme'' ''widgets''
     (map (attach 42 \<circ> to_issue) (map raw_issue [1, 2, 3])) [] = Inr demo_summary \<and>
   calls_of K_train (trace (REPOSITORY_SYNC (demo_env None [] [1, 2, 3]) [] acme_url empty_db)) =
     [Train ''acme'' ''widgets'' (map (attach 42 \<circ> to_issue) (map raw_issue [1, 2, 3])) []] \<and>
   results (REPOSITORY_SYNC (demo_env None [] [1, 2, 3]) [] acme_url empty_db) K_train \<noteq> Some (SummaryVal demo_summary) \<and>
   delivered_value (REPOSITORY_SYNC (demo_env None [] [1, 2, 3]) [] acme_url empty_db) K_train \<noteq>
     Some (SummaryVal demo_summary)"
proof -
  let ?S = "REPOSITORY_SYNC (demo_env None [] [1, 2, 3]) [] acme_url empty_db"
  have c: "calls_of K_train (trace ?S) =
      [Train ''acme'' ''widgets'' (map (attach 42 \<circ> to_issue) (map raw_issue [1, 2, 3])) []]"
    by code_simp
  have r: "results ?S K_train = Some Undefined" by code_simp
  have dv: "delivered_value ?S K_train = Some Undefined" by code_simp
  from c r dv show ?thesis by (simp add: demo_env_def trainer_ok_def)
qed

section \<open>Persisting the same repository twice\<close>

lemma db_now_Succeeded:
  "db_now e gh u d Succeeded = persisted (the (fetched_repo e gh u)) (attached_issues e gh u) d"
  by (simp add: db_now_def persisted_def Let_def)

lemma same_key_refl: "same_key R R"
  by (simp add: same_key_def)

lemma upsert_map_idem:
  "map (\<lambda>x. if same_key R x then R else x) (map (\<lambda>x. if same_key R x then R else x) xs) =
   map (\<lambda>x. if same_key R x then R else x) xs"
  by (induction xs) (simp_all add: same_key_refl)

lemma upsert_map_absent:
  "\<not> list_ex (same_key R) xs \<Longrightarrow> map (\<lambda>x. if same_key R x then R else x) xs = xs"
  by (induction xs) simp_all

lemma upsert_present: "list_ex (same_key R) (repositories (Repository_upsert R d))"
proof (cases "list_ex (same_key R) (repositories d)")
  case True
  then obtain x where x: "x \<in> set (repositories d)" "same_key R x" by (auto simp: list_ex_iff)
  from True have eq: "repositories (Repository_upsert R d) =
      map (\<lambda>x. if same_key R x then R else x) (repositories d)"
    by (simp add: Repository_upsert_def)
  have "R \<in> (\<lambda>y. if same_key R y then R else y) ` set (repositories d)"
  proof (rule image_eqI[where x = x])
    show "R = (if same_key R x then R else x)" using x(2) by simp
    show "x \<in> set (repositories d)" by (rule x(1))
  qed
  then have "R \<in> set (repositories (Repository_upsert R d))" by (simp add: eq)
  with same_key_refl[of R] show ?thesis unfolding list_ex_iff by blast
next
  case False
  then show ?thesis by (simp add: Repository_upsert_def same_key_refl)
qed

lemma upsert_idem: "Repository_upsert R (Repository_upsert R d) = Repository_upsert R d"
proof (cases "list_ex (same_key R) (repositories d)")
  case True
  have "repositories (Repository_upsert R d) = map (\<lambda>x. if same_key R x then R else x) (repositories d)"
    using True by (simp add: Repository_upsert_def)
  then show ?thesis
    using upsert_present[of R d] by (simp add: Repository_upsert_def upsert_map_idem)
next
  case False
  have r: "repositories (Repository_upsert R d) = repositories d @ [R]"
    using False by (simp add: Repository_upsert_def)
  have "Repository_upsert R (Repository_upsert R d) =
      (Repository_upsert R d)\<lparr>repositories := map (\<lambda>x. if same_key R x then R else x) (repositories d @ [R])\<rparr>"
    using upsert_present[of R d] by (simp add: Repository_upsert_def[of R "Repository_upsert R d"] r)
  also have "\<dots> = (Repository_upsert R d)\<lparr>repositories := repositories d @ [R]\<rparr>"
    using False by (simp add: upsert_map_absent same_key_refl)
  also have "\<dots> = Repository_upsert R d" using r by simp
  finally show ?thesis .
qed

lemma persisted_repositories: "repositories (persisted R is d) = repositories (Repository_upsert R d)"
  by (simp add: persisted_def Issue_bulkCreate_def Issue_destroy_def)

lemma persisted_issues:
  "issues_table (persisted R is d) = filter (\<lambda>i. repository_id i \<noteq> Some (repo_id R)) (issues_table d) @ is"
  by (simp add: persisted_def Issue_bulkCreate_def Issue_destroy_def Repository_upsert_def)

lemma persisted_idem:
  assumes "\<forall>i\<in>set is. repository_id i = Some (repo_id R)"
  shows "persisted R is (persisted R is d) = persisted R is d"
proof -
  have "repositories (Repository_upsert R (persisted R is d)) = repositories (Repository_upsert R (Repository_upsert R d))"
    by (simp add: Repository_upsert_def persisted_repositories)
  then have a: "repositories (persisted R is (persisted R is d)) = repositories (persisted R is d)"
    by (simp add: persisted_repositories upsert_idem)
  have "filter (\<lambda>i. repository_id i \<noteq> Some (repo_id R)) is = []"
    using assms by (simp add: filter_empty_conv)
  then have b: "issues_table (persisted R is (persisted R is d)) = issues_table (persisted R is d)"
    by (simp add: persisted_issues)
  from a b show ?thesis by simp
qed

lemma filter_upserted:
  "filter (same_key R) (map (\<lambda>x. if same_key R x then R else x) xs) =
   replicate (length (filter (same_key R) xs)) R"
  by (induction xs) (simp_all add: same_key_refl)

lemma distinct_map_once:
  "distinct (map f xs) \<Longrightarrow> length (filter (\<lambda>x. f x = c) xs) \<le> Suc 0"
proof (induction xs)
  case Nil
  then show ?case by simp
next
  case (Cons x xs)
  show ?case
  proof (cases "f x = c")
    case True
    with Cons.prems have "c \<notin> f ` set xs" by simp
    then have "\<forall>y\<in>set xs. f y \<noteq> c" by blast
    then have "filter (\<lambda>x. f x = c) xs = []" by (simp add: filter_empty_conv)
    with True show ?thesis by simp
  next
    case False
    with Cons show ?thesis by simp
  qed
qed

lemma unique_key_once:
  "distinct (map (\<lambda>x. (owner x, name x)) xs) \<Longrightarrow> length (filter (same_key R) xs) \<le> 1"
  using distinct_map_once[of "\<lambda>x. (owner x, name x)" xs "(owner R, name R)"]
  by (simp add: same_key_def[abs_def])

lemma upsert_one_record:
  assumes "distinct (map (\<lambda>x. (owner x, name x)) (repositories d))"
  shows "filter (same_key R) (repositories (Repository_upsert R d)) = [R]"
proof (cases "list_ex (same_key R) (repositories d)")
  case True
  then have "filter (same_key R) (repositories d) \<noteq> []" by (auto simp: list_ex_iff filter_empty_conv)
  with unique_key_once[OF assms, of R] have "length (filter (same_key R) (repositories d)) = 1"
    by (cases "filter (same_key R) (repositories d)") simp_all
  with True show ?thesis by (simp add: Repository_upsert_def filter_upserted)
next
  case False
  then have "filter (same_key R) (repositories d) = []" by (auto simp: list_ex_iff filter_empty_conv)
  with False show ?thesis by (simp add: Repository_upsert_def same_key_refl)
qed

lemma records_done:
  assumes v: "socket_github e = Some gh" "parseGitHubUrl e url = Some u" "url_name u \<noteq> []"
    and "repos_get gh (url_owner u) (url_name u) = Inr r"
    and "snd (getIssues e (url_owner u) (url_name u)) = Inr found"
    and "upsert_error e = None" "destroy_error e = None" "bulkCreate_error e = None"
  shows "phases (REPOSITORY_SYNC e sched url d) K_records = Succeeded"
proof (rule ccontr)
  let ?S = "REPOSITORY_SYNC e sched url d"
  assume n: "phases ?S K_records \<noteq> Succeeded"
  note f = sync_final[OF v, where d = d and sched = sched]
  note a = sync_answered[OF v, of sched d]
  from f(1) have nu: "\<not> uncaught ?S" by (simp add: sane_def)
  have ag: "agrees e gh u k (phases ?S k)" for k using sane_ok[OF f(1), of k] by (simp add: ok_def)
  have nr: "phases ?S K_repo \<noteq> Failed" using ag[of K_repo] assms(4) by (auto simp: agrees_def fetched_repo_def)
  have ni: "phases ?S K_issues \<noteq> Failed" using ag[of K_issues] assms(5) by (auto simp: agrees_def fetched_issues_def)
  have nc: "phases ?S K_records \<noteq> Failed" using ag[of K_records] assms(6,7,8) by (auto simp: agrees_def)
  have nw: "phases ?S K_webhooks \<noteq> Failed" using ag[of K_webhooks] by (auto simp: agrees_def)
  from final_pc[OF f(1,3), of K_records] n nc have c0: "phases ?S K_records = NotStarted" by simp
  have t0: "phases ?S K_train = NotStarted"
  proof (rule ccontr)
    assume "phases ?S K_train \<noteq> NotStarted"
    from sane_deps[OF f(1) this, of K_records] n show False by simp
  qed
  have "phases ?S k \<noteq> Failed" for k using nr ni nc nw t0 by (cases k) simp_all
  with a have ne: "\<not> hasError ?S" by (simp add: answered_def)
  from sync_delivers[OF v, of sched d] obtain rp where "delivered ?S = Some rp" by blast
  with a ne have unready: "\<forall>k. \<not> ready ?S k" by (simp add: answered_def)
  have r1: "phases ?S K_repo = Succeeded"
    using unready ne nu nr final_pc[OF f(1,3), of K_repo] by (auto simp: ready_def)
  have i1: "phases ?S K_issues = Succeeded"
    using unready ne nu ni final_pc[OF f(1,3), of K_issues] by (auto simp: ready_def)
  from r1 i1 c0 ne nu have "ready ?S K_records" by (simp add: ready_def)
  with unready show False by blast
qed

text \<open>
  Claim C7. Take a run in which both fetches succeed and the store accepts the three
  calls of the records task, and a second run, for the same repository and the same
  issues, on the database the first one left. In both runs the records task completes; the
  second run leaves the database exactly as the first one left it, so no repository and no
  issue record is added or lost. The issues stored for the repository are the fetched
  ones, each once, with the repository's id attached. And when the database the first run
  started from respects the unique index on \<open>(owner, name)\<close>, exactly one repository
  record carries this repository's owner and name: the one just fetched.
\<close>

theorem persisting_twice_changes_nothing:
  assumes "socket_github e = Some gh" "parseGitHubUrl e url = Some u" "url_name u \<noteq> []"
    and "repos_get gh (url_owner u) (url_name u) = Inr r"
    and "snd (getIssues e (url_owner u) (url_name u)) = Inr found"
    and "upsert_error e = None" "destroy_error e = None" "bulkCreate_error e = None"
  shows "phases (REPOSITORY_SYNC e s1 url d) K_records = Succeeded \<and>
         phases (REPOSITORY_SYNC e s2 url (db (REPOSITORY_SYNC e s1 url d))) K_records = Succeeded \<and>
         db (REPOSITORY_SYNC e s2 url (db (REPOSITORY_SYNC e s1 url d))) = db (REPOSITORY_SYNC e s1 url d) \<and>
         filter (\<lambda>i. repository_id i = Some (gh_id r)) (issues_table (db (REPOSITORY_SYNC e s1 url d))) =
           map (attach (gh_id r) \<circ> Issue_transformFields e) found \<and>
         (distinct (map (\<lambda>x. (owner x, name x)) (repositories d)) \<longrightarrow>
            filter (same_key ((transformFields r)\<lparr>token := socket_token e\<rparr>))
              (repositories (db (REPOSITORY_SYNC e s2 url (db (REPOSITORY_SYNC e s1 url d))))) =
              [(transformFields r)\<lparr>token := socket_token e\<rparr>])"
proof -
  let ?S1 = "REPOSITORY_SYNC e s1 url d"
  let ?S2 = "REPOSITORY_SYNC e s2 url (db ?S1)"
  let ?R = "(transformFields r)\<lparr>token := socket_token e\<rparr>"
  let ?is = "map (attach (gh_id r) \<circ> Issue_transformFields e) found"
  have fr: "the (fetched_repo e gh u) = ?R" using assms(4) by (simp add: fetched_repo_def)
  have at: "attached_issues e gh u = ?is" by (rule attached_issues_eq[OF assms(4,5)])
  have rid: "repo_id ?R = gh_id r" by (simp add: transformFields_def)
  have p1: "phases ?S1 K_records = Succeeded" by (rule records_done[OF assms])
  have p2: "phases ?S2 K_records = Succeeded" by (rule records_done[OF assms])
  have d1: "db ?S1 = persisted ?R ?is d"
    using sane_parts(3)[OF sync_final(1)[OF assms(1,2,3), of d s1]] p1 by (simp add: db_now_Succeeded fr at)
  have d2: "db ?S2 = persisted ?R ?is (db ?S1)"
    using sane_parts(3)[OF sync_final(1)[OF assms(1,2,3), of "db ?S1" s2]] p2 by (simp add: db_now_Succeeded fr at)
  have all: "\<forall>i\<in>set ?is. repository_id i = Some (repo_id ?R)" by (simp add: rid attach_def)
  have same: "db ?S2 = db ?S1" unfolding d2 unfolding d1 by (rule persisted_idem[OF all])
  have "filter (\<lambda>i. repository_id i = Some (gh_id r)) ?is = ?is"
    by (simp add: attach_def)
  then have iss: "filter (\<lambda>i. repository_id i = Some (gh_id r)) (issues_table (db ?S1)) = ?is"
    by (simp add: d1 persisted_issues rid)
  have one: "filter (same_key ?R) (repositories (db ?S2)) = [?R]"
    if "distinct (map (\<lambda>x. (owner x, name x)) (repositories d))"
    unfolding same unfolding d1 persisted_repositories by (rule upsert_one_record[OF that])
  from p1 p2 same iss one show ?thesis by blast
qed

theorem persisting_twice_changes_nothing_witness:
  "db (REPOSITORY_SYNC (demo_env None [] [1, 2, 3]) [K_issues] acme_url
         (db (REPOSITORY_SYNC (demo_env None [] [1, 2, 3]) [] acme_url stale_db))) =
     db (REPOSITORY_SYNC (demo_env None [] [1, 2, 3]) [] acme_url stale_db) \<and>
   db (REPOSITORY_SYNC (demo_env None [] [1, 2, 3]) [] acme_url stale_db) =
     \<lparr>repositories = [stored_acme], issues_table = map (attach 42 \<circ> to_issue \<circ> raw_issue) [1, 2, 3]\<rparr> \<and>
   filter (same_key stored_acme)
     (repositories (db (REPOSITORY_SYNC (demo_env None [] [1, 2, 3]) [K_issues] acme_url
         (db (REPOSITORY_SYNC (demo_env None [] [1, 2, 3]) [] acme_url stale_db))))) = [stored_acme]"
proof -
  let ?e = "demo_env None [] [1, 2, 3]"
  let ?u = "\<lparr>url_owner = ''acme'', url_name = ''widgets'', url_repo = ''acme/widgets''\<rparr>"
  have h: "repos_get (demo_api None) (url_owner ?u) (url_name ?u) = Inr acme"
    "snd (getIssues ?e (url_owner ?u) (url_name ?u)) = Inr (map raw_issue [1, 2, 3])"
    "upsert_error ?e = None" "destroy_error ?e = None" "bulkCreate_error ?e = None"
    by (simp_all add: demo_env_def demo_api_def always_acme_def fetcher_def)
  have dist: "distinct (map (\<lambda>x. (owner x, name x)) (repositories stale_db))"
    by (simp add: stale_db_def)
  have R: "(transformFields acme)\<lparr>token := socket_token ?e\<rparr> = stored_acme"
    by (simp add: stored_acme_def demo_env_def)
  have first: "db (REPOSITORY_SYNC ?e [] acme_url stale_db) =
      \<lparr>repositories = [stored_acme], issues_table = map (attach 42 \<circ> to_issue \<circ> raw_issue) [1, 2, 3]\<rparr>"
    by code_simp
  note t = persisting_twice_changes_nothing[OF demo_valid h, of "[]" stale_db "[K_issues]"]
  from t have c1: "db (REPOSITORY_SYNC ?e [K_issues] acme_url (db (REPOSITORY_SYNC ?e [] acme_url stale_db))) =
      db (REPOSITORY_SYNC ?e [] acme_url stale_db)" by blast
  from t dist have c3: "filter (same_key ((transformFields acme)\<lparr>token := socket_token ?e\<rparr>))
      (repositories (db (REPOSITORY_SYNC ?e [K_issues] acme_url (db (REPOSITORY_SYNC ?e [] acme_url stale_db))))) =
      [(transformFields acme)\<lparr>token := socket_token ?e\<rparr>]" by blast
  show ?thesis by (rule conjI[OF c1 conjI[OF first c3[unfolded R]]])
qed

section \<open>The run on acme/widgets\<close>






end
